theory Spec2Isabelle
  imports Main "HOL-Library.Sublist"
begin

section \<open>Notebook documents\<close>

text \<open>
  nbstripout works on the value that the notebook reader builds from a JSON file: nested
  Python dicts (\<open>NotebookNode\<close>, a dict subclass with attribute access), lists, strings,
  integers, booleans and \<open>None\<close>. The code is duck-typed, so every operation below is
  defined on every such value and says what Python does for each type.

  \<^item> A dict is an association list in insertion order; lookup is \<open>map_of\<close>. A document read
    from JSON has distinct keys in every dict; the operations keep that, and none of the
    theorems needs it.
  \<^item> A Python string is a sequence of code points and \<open>len\<close> counts them. Here a string is
    a list of \<open>char\<close>, each standing for one code point, so \<open>length\<close> is \<open>len\<close>.
  \<^item> JSON numbers are Python's unbounded integers. Floating-point numbers are not modelled.
  \<^item> The document is a tree (the reader shares no nodes), so the in-place mutation of the
    source is modelled by returning the updated value.
\<close>

datatype json =
    JNull
  | JBool bool
  | JInt int
  | JStr string
  | JList "json list"
  | JDict "(string \<times> json) list"

text \<open>
  \<open>MetadataError\<close> is the exception class of the source. \<open>ShapeError\<close> stands for every
  exception that Python itself raises on a document of unexpected shape
  (\<open>AttributeError\<close>, \<open>TypeError\<close>, \<open>KeyError\<close>).
\<close>

datatype error = MetadataError | ShapeError

definition ebind :: "error + 'a \<Rightarrow> ('a \<Rightarrow> error + 'b) \<Rightarrow> error + 'b" where
  "ebind m f = (case m of Inl e \<Rightarrow> Inl e | Inr x \<Rightarrow> f x)"

subsection \<open>Dict primitives\<close>

fun dict_set :: "string \<Rightarrow> json \<Rightarrow> (string \<times> json) list \<Rightarrow> (string \<times> json) list" where
  "dict_set k v [] = [(k, v)]"
| "dict_set k v ((k', v') # kvs) = (if k' = k then (k, v) # kvs else (k', v') # dict_set k v kvs)"

fun dict_del :: "string \<Rightarrow> (string \<times> json) list \<Rightarrow> (string \<times> json) list" where
  "dict_del k [] = []"
| "dict_del k ((k', v') # kvs) = (if k' = k then dict_del k kvs else (k', v') # dict_del k kvs)"

subsection \<open>Python operations on document values\<close>

text \<open>\<open>bool(x)\<close>.\<close>

fun py_bool :: "json \<Rightarrow> bool" where
  "py_bool JNull = False"
| "py_bool (JBool b) = b"
| "py_bool (JInt n) = (n \<noteq> 0)"
| "py_bool (JStr s) = (s \<noteq> [])"
| "py_bool (JList xs) = (xs \<noteq> [])"
| "py_bool (JDict kvs) = (kvs \<noteq> [])"

text \<open>
  \<open>k in x\<close> for a string \<open>k\<close>: key membership in a dict, element membership in a list
  (a string equals only an equal string), substring test in a string, \<open>TypeError\<close>
  otherwise.
\<close>

fun py_in :: "string \<Rightarrow> json \<Rightarrow> error + bool" where
  "py_in k (JDict kvs) = Inr (map_of kvs k \<noteq> None)"
| "py_in k (JList xs) = Inr (JStr k \<in> set xs)"
| "py_in k (JStr s) = Inr (sublist k s)"
| "py_in k _ = Inl ShapeError"

text \<open>
  \<open>x.name\<close>: a \<open>NotebookNode\<close> answers an attribute that is not a method of dict with the
  item of that name and raises \<open>AttributeError\<close> when there is none; no other value has
  the attributes the code reads.
\<close>

fun py_getattr :: "json \<Rightarrow> string \<Rightarrow> error + json" where
  "py_getattr (JDict kvs) name = (case map_of kvs name of Some v \<Rightarrow> Inr v | None \<Rightarrow> Inl ShapeError)"
| "py_getattr _ name = Inl ShapeError"

text \<open>\<open>x.get(k, default)\<close>: only a dict has the method.\<close>

fun py_get :: "json \<Rightarrow> string \<Rightarrow> json \<Rightarrow> error + json" where
  "py_get (JDict kvs) k dflt = (case map_of kvs k of Some v \<Rightarrow> Inr v | None \<Rightarrow> Inr dflt)"
| "py_get _ k dflt = Inl ShapeError"

text \<open>\<open>x[k]\<close> for a string \<open>k\<close>: \<open>KeyError\<close> on a dict without the key, \<open>TypeError\<close> on
  a list or string (their indices are integers) and on a scalar.\<close>

fun py_getitem :: "json \<Rightarrow> string \<Rightarrow> error + json" where
  "py_getitem (JDict kvs) k = (case map_of kvs k of Some v \<Rightarrow> Inr v | None \<Rightarrow> Inl ShapeError)"
| "py_getitem _ k = Inl ShapeError"

text \<open>\<open>x[k] = v\<close> and \<open>x.k = v\<close> for a string \<open>k\<close>: a dict keeps the position of an
  existing key and appends a new one; every other value raises.\<close>

fun py_setitem :: "json \<Rightarrow> string \<Rightarrow> json \<Rightarrow> error + json" where
  "py_setitem (JDict kvs) k v = Inr (JDict (dict_set k v kvs))"
| "py_setitem _ k v = Inl ShapeError"

text \<open>\<open>for x in c\<close>: the elements of a list, the one-character strings of a string, the
  keys of a dict; a scalar is not iterable.\<close>

fun py_iter :: "json \<Rightarrow> error + json list" where
  "py_iter (JList xs) = Inr xs"
| "py_iter (JStr s) = Inr (map (\<lambda>c. JStr [c]) s)"
| "py_iter (JDict kvs) = Inr (map (\<lambda>kv. JStr (fst kv)) kvs)"
| "py_iter _ = Inl ShapeError"

section \<open>\<open>pop_recursive\<close>\<close>

text \<open>\<open>key.split('.', maxsplit=1)\<close> for a key that contains a dot; \<open>key_head\<close> is also
  \<open>key.split('.')[0]\<close> for any key.\<close>

definition key_head :: "string \<Rightarrow> string" where
  "key_head key = takeWhile (\<lambda>c. c \<noteq> CHR ''.'') key"

definition key_tail :: "string \<Rightarrow> string" where
  "key_tail key = tl (dropWhile (\<lambda>c. c \<noteq> CHR ''.'') key)"

text \<open>
  The function returns the popped value (or the default) together with the value of \<open>d\<close>
  after the call: the source mutates \<open>d\<close> in place, and a nested dict that lost a key is
  still stored under the same key of its parent.
\<close>

function pop_recursive :: "json \<Rightarrow> string \<Rightarrow> json \<Rightarrow> json \<times> json" where
  "pop_recursive d key dflt =
     (case d of
        JDict kvs \<Rightarrow>
          (case map_of kvs key of
             Some v \<Rightarrow> (v, JDict (dict_del key kvs))
           | None \<Rightarrow>
               if CHR ''.'' \<notin> set key then (dflt, d)
               else (case map_of kvs (key_head key) of
                       Some sub \<Rightarrow>
                         (case pop_recursive sub (key_tail key) dflt of
                            (r, sub') \<Rightarrow> (r, JDict (dict_set (key_head key) sub' kvs)))
                     | None \<Rightarrow> (dflt, d)))
      | _ \<Rightarrow> (dflt, d))"
  by pat_completeness auto
termination
proof (relation "measure (\<lambda>(d, key, dflt). length key)", goal_cases)
  case 1
  show ?case by simp
next
  case (2 d key dflt kvs sub)
  then have "dropWhile (\<lambda>c. c \<noteq> CHR ''.'') key \<noteq> []"
    by (auto simp: dropWhile_eq_Nil_conv)
  then have "length (key_tail key) < length (dropWhile (\<lambda>c. c \<noteq> CHR ''.'') key)"
    by (simp add: key_tail_def)
  also have "\<dots> \<le> length key"
    by (rule length_dropWhile_le)
  finally show ?case by simp
qed

declare pop_recursive.simps [simp del]

text \<open>
  Whether the whole path resolves, that is, whether the call reaches \<open>d.pop\<close>: the control
  flow of \<open>pop_recursive\<close> with \<open>True\<close> at the pop and \<open>False\<close> at each
  \<open>return default\<close>.
\<close>

function path_resolves :: "json \<Rightarrow> string \<Rightarrow> bool" where
  "path_resolves d key =
     (case d of
        JDict kvs \<Rightarrow>
          (case map_of kvs key of
             Some v \<Rightarrow> True
           | None \<Rightarrow>
               if CHR ''.'' \<notin> set key then False
               else (case map_of kvs (key_head key) of
                       Some sub \<Rightarrow> path_resolves sub (key_tail key)
                     | None \<Rightarrow> False))
      | _ \<Rightarrow> False)"
  by pat_completeness auto
termination
proof (relation "measure (\<lambda>(d, key). length key)", goal_cases)
  case 1
  show ?case by simp
next
  case (2 d key kvs sub)
  then have "dropWhile (\<lambda>c. c \<noteq> CHR ''.'') key \<noteq> []"
    by (auto simp: dropWhile_eq_Nil_conv)
  then have "length (key_tail key) < length (dropWhile (\<lambda>c. c \<noteq> CHR ''.'') key)"
    by (simp add: key_tail_def)
  also have "\<dots> \<le> length key"
    by (rule length_dropWhile_le)
  finally show ?case by simp
qed

declare path_resolves.simps [simp del]

section \<open>\<open>get_size\<close>\<close>

text \<open>\<open>str(n)\<close> for an integer: the decimal digits, with a minus sign for a negative one.\<close>

fun digits :: "nat \<Rightarrow> string" where
  "digits n = (if n < 10 then [char_of (48 + n)] else digits (n div 10) @ [char_of (48 + n mod 10)])"

declare digits.simps [simp del]

definition str_int :: "int \<Rightarrow> string" where
  "str_int i = (if i < 0 then CHR ''-'' # digits (nat (- i)) else digits (nat i))"

text \<open>\<open>str(x)\<close> for the scalars that reach the last branch of \<open>get_size\<close>.\<close>

fun py_str :: "json \<Rightarrow> string" where
  "py_str JNull = ''None''"
| "py_str (JBool b) = (if b then ''True'' else ''False'')"
| "py_str (JInt i) = str_int i"
| "py_str _ = []"

fun get_size :: "json \<Rightarrow> int" where
  "get_size (JStr s) = int (length s)"
| "get_size (JList xs) = sum_list (map get_size xs)"
| "get_size (JDict kvs) = sum_list (map (\<lambda>kv. get_size (snd kv)) kvs)"
| "get_size item = int (length (py_str item))"

section \<open>\<open>determine_keep_output\<close>\<close>

text \<open>
  The default is the caller's \<open>keep_output\<close>, which is \<open>None\<close>, \<open>True\<close> or \<open>False\<close>; the
  function returns it unchanged in two branches, so the result has the same three values.
\<close>

definition determine_keep_output :: "json \<Rightarrow> bool option \<Rightarrow> bool \<Rightarrow> error + bool option" where
  "determine_keep_output cell dflt strip_init =
     ebind (py_in ''metadata'' cell) (\<lambda>has_metadata.
     if \<not> has_metadata then Inr dflt
     else
       ebind (py_getattr cell ''metadata'') (\<lambda>md.
       ebind (py_in ''init_cell'' md) (\<lambda>has_init_cell.
       if has_init_cell then
         ebind (py_getattr md ''init_cell'') (\<lambda>init_cell.
         Inr (Some (py_bool init_cell \<and> \<not> strip_init)))
       else
         ebind (py_in ''keep_output'' md) (\<lambda>has_keep_output_metadata.
         ebind (py_get md ''keep_output'' (JBool False)) (\<lambda>v.
         ebind (py_get md ''tags'' (JList [])) (\<lambda>tags.
         ebind (py_in ''keep_output'' tags) (\<lambda>has_keep_output_tag.
         if has_keep_output_metadata \<and> has_keep_output_tag \<and> \<not> py_bool v then Inl MetadataError
         else if has_keep_output_metadata \<or> has_keep_output_tag
           then Inr (Some (py_bool v \<or> has_keep_output_tag))
           else Inr dflt)))))))"

section \<open>\<open>StripArgs\<close>\<close>

text \<open>\<open>keep_output\<close> is the tri-state of the command line: \<open>None\<close> when the option is
  not given.\<close>

record StripArgs =
  keep_output :: "bool option"
  keep_count :: bool
  extra_keys :: "string list"
  drop_empty_cells :: bool
  drop_tagged_cells :: "string list"
  strip_init_cells :: bool
  max_size :: int

section \<open>Cell filters\<close>

text \<open>
  The characters that \<open>str.strip()\<close> removes, among the code points a \<open>char\<close> stands
  for: tab to carriage return, the four separators, space, next line and no-break space.
\<close>

definition is_space :: "char \<Rightarrow> bool" where
  "is_space c = (of_char c \<in> {9, 10, 11, 12, 13, 28, 29, 30, 31, 32, 133, 160 :: nat})"

text \<open>
  \<open>any(line.strip() for line in lines)\<close>: \<open>any\<close> stops at the first line that is not
  blank, and only a string has \<open>strip\<close>.
\<close>

fun any_stripped :: "json list \<Rightarrow> error + bool" where
  "any_stripped [] = Inr False"
| "any_stripped (JStr s # lines) = (if \<exists>c \<in> set s. \<not> is_space c then Inr True else any_stripped lines)"
| "any_stripped (_ # lines) = Inl ShapeError"

text \<open>
  The two kinds of lambda that \<open>strip_output\<close> appends to \<open>conditionals\<close>:
  \<^verbatim>\<open>lambda c: any(line.strip() for line in c.get('source', []))\<close> and
  \<^verbatim>\<open>lambda c: tag_to_drop not in c.get("metadata", {}).get("tags", [])\<close>, the latter with
  the value that \<open>tag_to_drop\<close> has when the lambda is called.
\<close>

datatype conditional = NonEmptySource | TagAbsent string

fun eval_conditional :: "conditional \<Rightarrow> json \<Rightarrow> error + bool" where
  "eval_conditional NonEmptySource c =
     ebind (py_get c ''source'' (JList [])) (\<lambda>source.
     ebind (py_iter source) any_stripped)"
| "eval_conditional (TagAbsent tag) c =
     ebind (py_get c ''metadata'' (JDict [])) (\<lambda>md.
     ebind (py_get md ''tags'' (JList [])) (\<lambda>tags.
     ebind (py_in tag tags) (\<lambda>present. Inr (\<not> present))))"

text \<open>
  The list \<open>conditionals\<close> as it is when \<open>_cells\<close> runs. A Python closure captures the
  variable \<open>tag_to_drop\<close>, not the value it had when the lambda was created, and the
  lambdas are only called after the loop over \<open>args.drop_tagged_cells\<close> has ended: each of
  them then reads the last tag of the list.
\<close>

definition conditionals :: "StripArgs \<Rightarrow> conditional list" where
  "conditionals args =
     (if drop_empty_cells args then [NonEmptySource] else []) @
     map (\<lambda>tag_to_drop. TagAbsent (last (drop_tagged_cells args))) (drop_tagged_cells args)"

section \<open>Loops over the document\<close>

text \<open>A loop whose body may raise: the first exception ends it.\<close>

fun map_result :: "('a \<Rightarrow> error + 'b) \<Rightarrow> 'a list \<Rightarrow> error + 'b list" where
  "map_result f [] = Inr []"
| "map_result f (x # xs) = ebind (f x) (\<lambda>y. ebind (map_result f xs) (\<lambda>ys. Inr (y # ys)))"

text \<open>\<open>list(filter(p, xs))\<close> for a predicate that may raise.\<close>

fun filter_result :: "('a \<Rightarrow> error + bool) \<Rightarrow> 'a list \<Rightarrow> error + 'a list" where
  "filter_result p [] = Inr []"
| "filter_result p (x # xs) =
     ebind (p x) (\<lambda>keep. ebind (filter_result p xs) (\<lambda>ys. Inr (if keep then x # ys else ys)))"

text \<open>
  \<open>for x in c: body(x)\<close> where the body mutates \<open>x\<close> in place; the result is \<open>c\<close> after
  the loop. The elements of a list are the list's own objects. Iterating a string or a
  dict produces strings, which are immutable, so the container is as before when no body
  raised.
\<close>

fun py_for_mut :: "(json \<Rightarrow> error + json) \<Rightarrow> json \<Rightarrow> error + json" where
  "py_for_mut body (JList xs) = ebind (map_result body xs) (\<lambda>ys. Inr (JList ys))"
| "py_for_mut body c = ebind (py_iter c) (\<lambda>xs. ebind (map_result body xs) (\<lambda>ys. Inr c))"

text \<open>\<open>x < 4\<close>: defined on numbers (\<open>True\<close> and \<open>False\<close> are the integers 1 and 0).\<close>

fun py_lt4 :: "json \<Rightarrow> error + bool" where
  "py_lt4 (JInt n) = Inr (n < 4)"
| "py_lt4 (JBool b) = Inr True"
| "py_lt4 _ = Inl ShapeError"

text \<open>\<open>node.cells = list(filter(conditional, node.cells))\<close>\<close>

definition apply_conditional :: "conditional \<Rightarrow> json \<Rightarrow> error + json" where
  "apply_conditional cond node =
     ebind (py_getattr node ''cells'') (\<lambda>cells.
     ebind (py_iter cells) (\<lambda>items.
     ebind (filter_result (eval_conditional cond) items) (\<lambda>kept.
     py_setitem node ''cells'' (JList kept))))"

fun apply_conditionals :: "conditional list \<Rightarrow> json \<Rightarrow> error + json" where
  "apply_conditionals [] node = Inr node"
| "apply_conditionals (cond # conds) node = ebind (apply_conditional cond node) (apply_conditionals conds)"

text \<open>
  The two inner loops of \<open>_cells\<close> on one node (the notebook, or one worksheet), together
  with the body that the caller's \<open>for\<close> loop runs on every cell yielded.
\<close>

definition visit_cells :: "conditional list \<Rightarrow> (json \<Rightarrow> error + json) \<Rightarrow> json \<Rightarrow> error + json" where
  "visit_cells conds body node =
     ebind (apply_conditionals conds node) (\<lambda>node1.
     ebind (py_getattr node1 ''cells'') (\<lambda>cells.
     ebind (py_for_mut body cells) (\<lambda>cells'.
     py_setitem node1 ''cells'' cells')))"

text \<open>
  \<open>for cell in _cells(nb, conditionals): body(cell)\<close>. \<open>_cells\<close> is a generator, so for
  a notebook with worksheets the body runs on the cells of one worksheet before the next
  worksheet is filtered.
\<close>

definition for_cells :: "json \<Rightarrow> conditional list \<Rightarrow> (json \<Rightarrow> error + json) \<Rightarrow> error + json" where
  "for_cells nb conds body =
     ebind (py_getattr nb ''nbformat'') (\<lambda>nbformat.
     ebind (py_lt4 nbformat) (\<lambda>legacy.
     if legacy then
       ebind (py_getattr nb ''worksheets'') (\<lambda>worksheets.
       ebind (py_for_mut (visit_cells conds body) worksheets) (\<lambda>worksheets'.
       py_setitem nb ''worksheets'' worksheets'))
     else visit_cells conds body nb))"

section \<open>\<open>strip_output\<close>\<close>

text \<open>Lines 117 to 119: the effective \<open>keep_output\<close>.\<close>

definition effective_keep_output :: "json \<Rightarrow> StripArgs \<Rightarrow> error + bool option" where
  "effective_keep_output nb args =
     (case keep_output args of
        Some b \<Rightarrow> Inr (Some b)
      | None \<Rightarrow>
          ebind (py_getattr nb ''metadata'') (\<lambda>md.
          ebind (py_in ''keep_output'' md) (\<lambda>present.
          if present then ebind (py_getitem md ''keep_output'') (\<lambda>v. Inr (Some (py_bool v)))
          else Inr None)))"

text \<open>Lines 121 to 127: the test that rejects an extra key, the message written to
  \<open>stderr\<close> for it, and the list \<open>keys[namespace]\<close>.\<close>

definition invalid_extra_key :: "string \<Rightarrow> bool" where
  "invalid_extra_key key = (CHR ''.'' \<notin> set key \<or> key_head key \<notin> {''cell'', ''metadata''})"

definition warning :: "string \<Rightarrow> string" where
  "warning key = ''Ignoring invalid extra key `'' @ key @ ''`'' @ [char_of (10 :: nat)]"

definition keys_for :: "string \<Rightarrow> string list \<Rightarrow> string list" where
  "keys_for namespace keys =
     map key_tail (filter (\<lambda>key. \<not> invalid_extra_key key \<and> key_head key = namespace) keys)"

text \<open>Lines 129 and 130.\<close>

fun pop_metadata :: "string list \<Rightarrow> json \<Rightarrow> error + json" where
  "pop_metadata [] nb = Inr nb"
| "pop_metadata (field # rest) nb =
     ebind (py_getattr nb ''metadata'') (\<lambda>md.
     ebind (py_setitem nb ''metadata'' (snd (pop_recursive md field JNull))) (pop_metadata rest))"

text \<open>Lines 152 to 154, for one output.\<close>

definition null_count :: "json \<Rightarrow> error + json" where
  "null_count output =
     ebind (py_in ''execution_count'' output) (\<lambda>present.
     if present then py_setitem output ''execution_count'' JNull else Inr output)"

text \<open>Lines 146 to 154, under \<open>if 'outputs' in cell\<close>. \<open>not k\<close> holds for \<open>None\<close> and
  \<open>False\<close>.\<close>

definition strip_outputs :: "StripArgs \<Rightarrow> bool option \<Rightarrow> json \<Rightarrow> error + json" where
  "strip_outputs args k cell =
     ebind
       (if k \<noteq> Some True then
          ebind (py_getitem cell ''outputs'') (\<lambda>outputs.
          ebind (py_iter outputs) (\<lambda>items.
          py_setitem cell ''outputs'' (JList (filter (\<lambda>output. get_size output \<le> max_size args) items))))
        else Inr cell) (\<lambda>cell1.
     if \<not> keep_count args then
       ebind (py_getitem cell1 ''outputs'') (\<lambda>outputs.
       ebind (py_for_mut null_count outputs) (\<lambda>outputs'.
       py_setitem cell1 ''outputs'' outputs'))
     else Inr cell1)"

text \<open>Lines 165 and 166.\<close>

definition pop_fields :: "string list \<Rightarrow> json \<Rightarrow> json" where
  "pop_fields cell_keys cell = foldl (\<lambda>c field. snd (pop_recursive c field JNull)) cell cell_keys"

text \<open>Lines 140 to 166: the body of the loop over the cells.\<close>

definition strip_cell :: "StripArgs \<Rightarrow> bool option \<Rightarrow> string list \<Rightarrow> json \<Rightarrow> error + json" where
  "strip_cell args keep cell_keys cell =
     ebind (determine_keep_output cell keep (strip_init_cells args)) (\<lambda>keep_output_this_cell.
     ebind (py_in ''outputs'' cell) (\<lambda>has_outputs.
     ebind (if has_outputs then strip_outputs args keep_output_this_cell cell else Inr cell) (\<lambda>cell1.
     ebind (py_in ''prompt_number'' cell1) (\<lambda>has_prompt_number.
     ebind (if has_prompt_number \<and> \<not> keep_count args
            then py_setitem cell1 ''prompt_number'' JNull else Inr cell1) (\<lambda>cell2.
     ebind (py_in ''execution_count'' cell2) (\<lambda>has_execution_count.
     ebind (if has_execution_count \<and> \<not> keep_count args
            then py_setitem cell2 ''execution_count'' JNull else Inr cell2) (\<lambda>cell3.
     Inr (pop_fields cell_keys cell3))))))))"

text \<open>
  The result is what the call wrote to \<open>stderr\<close> together with the notebook returned or
  the exception raised.
\<close>

definition strip_output :: "json \<Rightarrow> StripArgs \<Rightarrow> string list \<times> (error + json)" where
  "strip_output nb args =
     (case effective_keep_output nb args of
        Inl e \<Rightarrow> ([], Inl e)
      | Inr keep \<Rightarrow>
          (map warning (filter invalid_extra_key (extra_keys args)),
           ebind (pop_metadata (keys_for ''metadata'' (extra_keys args)) nb) (\<lambda>nb1.
           for_cells nb1 (conditionals args)
             (strip_cell args keep (keys_for ''cell'' (extra_keys args))))))"

section \<open>Observations on documents\<close>

text \<open>The cells that \<open>for cell in node.cells\<close> visits.\<close>

definition node_cells :: "json \<Rightarrow> error + json list" where
  "node_cells node = ebind (py_getattr node ''cells'') py_iter"

text \<open>The cells of a notebook in the order in which \<open>_cells\<close> visits them: those of
  \<open>nb.cells\<close>, or those of every worksheet in turn when \<open>nbformat\<close> is below 4.\<close>

definition nb_cells :: "json \<Rightarrow> error + json list" where
  "nb_cells nb =
     ebind (py_getattr nb ''nbformat'') (\<lambda>nbformat.
     ebind (py_lt4 nbformat) (\<lambda>legacy.
     if legacy then
       ebind (py_getattr nb ''worksheets'') (\<lambda>worksheets.
       ebind (py_iter worksheets) (\<lambda>items.
       ebind (map_result node_cells items) (\<lambda>css. Inr (concat css))))
     else node_cells nb))"

text \<open>A cell passes when every conditional evaluates to \<open>True\<close> on it, so that every
  \<open>filter\<close> keeps it.\<close>

definition passes :: "conditional list \<Rightarrow> json \<Rightarrow> bool" where
  "passes conds c = list_all (\<lambda>cond. eval_conditional cond c = Inr True) conds"

text \<open>A loop body that leaves a string as it is whenever it returns (a string is immutable).\<close>

definition stable :: "(json \<Rightarrow> error + json) \<Rightarrow> bool" where
  "stable body = (\<forall>s y. body (JStr s) = Inr y \<longrightarrow> y = JStr s)"

text \<open>The value stored under a key of a mapping, if any.\<close>

fun field :: "json \<Rightarrow> string \<Rightarrow> json option" where
  "field (JDict kvs) k = map_of kvs k"
| "field _ k = None"

text \<open>\<open>isinstance(x, dict)\<close>\<close>

fun is_dict :: "json \<Rightarrow> bool" where
  "is_dict (JDict kvs) = True"
| "is_dict _ = False"

text \<open>\<open>if k in c: c[k] = None\<close> on the items of a dict.\<close>

definition null_field :: "string \<Rightarrow> (string \<times> json) list \<Rightarrow> (string \<times> json) list" where
  "null_field k c = (if map_of c k \<noteq> None then dict_set k JNull c else c)"

text \<open>The field is absent or null.\<close>

definition counter_null :: "json \<Rightarrow> string \<Rightarrow> bool" where
  "counter_null x name = (case field x name of None \<Rightarrow> True | Some v \<Rightarrow> v = JNull)"

text \<open>
  What the removal of the cell-scoped extra keys leaves of one field of a cell, given the
  field before (\<open>None\<close> when absent) and after. A key equal to the name removes the field.
  Otherwise an absent field stays absent, and a field that is present stays as it is,
  unless it is a mapping and some key's first segment is the name: then it is still a
  mapping, which may have lost entries.
\<close>

definition kept_value :: "string list \<Rightarrow> string \<Rightarrow> json option \<Rightarrow> json option \<Rightarrow> bool" where
  "kept_value cell_keys name before after =
     (if name \<in> set cell_keys then after = None
      else case before of
             None \<Rightarrow> after = None
           | Some v \<Rightarrow>
               if is_dict v \<and> list_ex (\<lambda>key. key_head key = name) cell_keys
               then (case after of Some v' \<Rightarrow> is_dict v' | None \<Rightarrow> False)
               else after = Some v)"

text \<open>The counters of a stripped cell and of the outputs in its list of outputs are null
  where present.\<close>

definition counts_null :: "json \<Rightarrow> bool" where
  "counts_null c' =
     (counter_null c' ''prompt_number'' \<and> counter_null c' ''execution_count'' \<and>
      (case field c' ''outputs'' of
         Some (JList outs') \<Rightarrow> list_all (\<lambda>output. counter_null output ''execution_count'') outs'
       | _ \<Rightarrow> True))"

text \<open>
  No counter of a cell was altered: between the cell \<open>c\<close> and the stripped cell \<open>c'\<close>
  the fields \<open>prompt_number\<close> and \<open>execution_count\<close> have only seen the removal of the
  extra keys, and so has the field \<open>outputs\<close>, either as it was or reduced to the outputs
  within \<open>max_size\<close>, each of them unchanged.
\<close>

definition counts_kept :: "StripArgs \<Rightarrow> string list \<Rightarrow> json \<Rightarrow> json \<Rightarrow> bool" where
  "counts_kept args cell_keys c c' =
     (kept_value cell_keys ''prompt_number'' (field c ''prompt_number'') (field c' ''prompt_number'') \<and>
      kept_value cell_keys ''execution_count'' (field c ''execution_count'') (field c' ''execution_count'') \<and>
      (kept_value cell_keys ''outputs'' (field c ''outputs'') (field c' ''outputs'') \<or>
       (case ebind (py_getattr c ''outputs'') py_iter of
          Inr items \<Rightarrow>
            kept_value cell_keys ''outputs''
              (Some (JList (filter (\<lambda>output. get_size output \<le> max_size args) items)))
              (field c' ''outputs'')
        | Inl e \<Rightarrow> False)))"

section \<open>Example documents\<close>

text \<open>\<open>StripArgs(None, False)\<close>: no option given, and the defaults of the class for the
  other fields.\<close>

definition default_args :: StripArgs where
  "default_args =
     \<lparr>keep_output = None, keep_count = False, extra_keys = [],
      drop_empty_cells = False, drop_tagged_cells = [], strip_init_cells = False, max_size = 0\<rparr>"

text \<open>A notebook of format 4 with the given metadata and cells.\<close>

definition notebook :: "(string \<times> json) list \<Rightarrow> json list \<Rightarrow> json" where
  "notebook md cells =
     JDict [(''metadata'', JDict md), (''nbformat'', JInt 4), (''nbformat_minor'', JInt 5),
            (''cells'', JList cells)]"

text \<open>A code cell with the given metadata, no outputs and no execution count.\<close>

definition code_cell :: "(string \<times> json) list \<Rightarrow> json" where
  "code_cell md =
     JDict [(''cell_type'', JStr ''code''), (''metadata'', JDict md), (''source'', JList [JStr ''1+1'']),
            (''outputs'', JList []), (''execution_count'', JNull)]"

text \<open>The input cell of the end-to-end example of the specification.\<close>

definition executed_cell :: json where
  "executed_cell =
     JDict [(''source'', JList [JStr ''1+1'']),
            (''outputs'', JList [JDict [(''execution_count'', JInt 3),
                                        (''data'', JDict [(''text/plain'', JStr ''2'')])]]),
            (''execution_count'', JInt 3)]"

section \<open>Properties of the dict primitives\<close>

lemma ebind_simps [simp]:
  "ebind (Inl e) f = Inl e"
  "ebind (Inr x) f = f x"
  by (simp_all add: ebind_def)

lemma ebind_eq_Inr: "ebind m f = Inr y \<longleftrightarrow> (\<exists>x. m = Inr x \<and> f x = Inr y)"
  by (cases m) simp_all

lemma dict_del_filter: "dict_del k kvs = filter (\<lambda>kv. fst kv \<noteq> k) kvs"
  by (induction kvs) auto

lemma map_of_dict_del: "map_of (dict_del k kvs) = (map_of kvs)(k := None)"
  by (induction kvs) auto

lemma map_of_dict_set: "map_of (dict_set k v kvs) = (map_of kvs)(k \<mapsto> v)"
  by (induction kvs) auto

lemma dict_set_same: "map_of kvs k = Some v \<Longrightarrow> dict_set k v kvs = kvs"
  by (induction kvs) (auto split: if_splits)

lemma dict_del_absent: "map_of kvs k = None \<Longrightarrow> dict_del k kvs = kvs"
  by (induction kvs) (auto split: if_splits)

lemma dict_del_shorter: "map_of kvs k = Some v \<Longrightarrow> length (dict_del k kvs) < length kvs"
  by (induction kvs) (auto simp: dict_del_filter less_Suc_eq_le split: if_splits)

lemma dict_set_changed:
  "map_of kvs k = Some v \<Longrightarrow> v' \<noteq> v \<Longrightarrow> dict_set k v' kvs \<noteq> kvs"
  by (induction kvs) (auto split: if_splits)

section \<open>Properties of \<open>pop_recursive\<close>\<close>

lemma pop_recursive_not_dict: "\<forall>kvs. d \<noteq> JDict kvs \<Longrightarrow> pop_recursive d key dflt = (dflt, d)"
  by (cases d) (simp_all add: pop_recursive.simps)

lemma pop_recursive_literal:
  "map_of kvs key = Some v \<Longrightarrow> pop_recursive (JDict kvs) key dflt = (v, JDict (dict_del key kvs))"
  by (simp add: pop_recursive.simps)

lemma pop_recursive_nested:
  "map_of kvs key = None \<Longrightarrow> CHR ''.'' \<in> set key \<Longrightarrow> map_of kvs (key_head key) = Some sub \<Longrightarrow>
   pop_recursive (JDict kvs) key dflt =
     (case pop_recursive sub (key_tail key) dflt of
        (r, sub') \<Rightarrow> (r, JDict (dict_set (key_head key) sub' kvs)))"
  by (subst pop_recursive.simps) simp

lemma pop_recursive_absent:
  "map_of kvs key = None \<Longrightarrow> CHR ''.'' \<notin> set key \<or> map_of kvs (key_head key) = None \<Longrightarrow>
   pop_recursive (JDict kvs) key dflt = (dflt, JDict kvs)"
  by (subst pop_recursive.simps) auto

lemma pop_recursive_unresolved:
  "\<not> path_resolves d key \<Longrightarrow> pop_recursive d key dflt = (dflt, d)"
proof (induction d key dflt rule: pop_recursive.induct)
  case (1 d key dflt)
  show ?case
  proof (cases d)
    case (JDict kvs)
    show ?thesis
    proof (cases "map_of kvs key")
      case (Some v)
      with JDict "1.prems" show ?thesis
        by (simp add: path_resolves.simps)
    next
      case None
      show ?thesis
      proof (cases "CHR ''.'' \<in> set key")
        case False
        with JDict None show ?thesis
          by (simp add: pop_recursive_absent)
      next
        case True
        show ?thesis
        proof (cases "map_of kvs (key_head key)")
          case no_head: None
          with JDict None show ?thesis
            by (simp add: pop_recursive_absent)
        next
          case (Some sub)
          from JDict None True Some "1.prems" have "\<not> path_resolves sub (key_tail key)"
            by (subst (asm) path_resolves.simps) simp
          with "1.IH" [OF JDict None _ Some] True
          have "pop_recursive sub (key_tail key) dflt = (dflt, sub)"
            by simp
          with JDict None True Some show ?thesis
            by (simp add: pop_recursive_nested dict_set_same)
        qed
      qed
    qed
  qed (simp_all add: pop_recursive.simps)
qed

lemma pop_recursive_resolved:
  "path_resolves d key \<Longrightarrow>
   pop_recursive d key dflt = pop_recursive d key dflt' \<and> snd (pop_recursive d key dflt) \<noteq> d"
proof (induction d key dflt rule: pop_recursive.induct)
  case (1 d key dflt)
  show ?case
  proof (cases d)
    case (JDict kvs)
    show ?thesis
    proof (cases "map_of kvs key")
      case (Some v)
      then have "length (dict_del key kvs) < length kvs"
        by (rule dict_del_shorter)
      then have "dict_del key kvs \<noteq> kvs"
        by auto
      with JDict Some show ?thesis
        by (simp add: pop_recursive_literal)
    next
      case None
      with JDict "1.prems" have dot: "CHR ''.'' \<in> set key"
        by (subst (asm) path_resolves.simps) (simp split: if_splits)
      with JDict None "1.prems" obtain sub where
        sub: "map_of kvs (key_head key) = Some sub" and res: "path_resolves sub (key_tail key)"
        by (subst (asm) path_resolves.simps) (simp split: option.splits)
      from "1.IH" [OF JDict None _ sub res] dot
      have ih: "pop_recursive sub (key_tail key) dflt = pop_recursive sub (key_tail key) dflt'"
        and changed: "snd (pop_recursive sub (key_tail key) dflt) \<noteq> sub"
        by blast+
      from sub changed
      have "dict_set (key_head key) (snd (pop_recursive sub (key_tail key) dflt)) kvs \<noteq> kvs"
        by (rule dict_set_changed)
      moreover have "pop_recursive (JDict kvs) key dflt' =
          (case pop_recursive sub (key_tail key) dflt of
             (r, sub') \<Rightarrow> (r, JDict (dict_set (key_head key) sub' kvs)))"
        using None dot sub by (simp add: pop_recursive_nested ih)
      moreover have "pop_recursive (JDict kvs) key dflt =
          (case pop_recursive sub (key_tail key) dflt of
             (r, sub') \<Rightarrow> (r, JDict (dict_set (key_head key) sub' kvs)))"
        using None dot sub by (simp add: pop_recursive_nested)
      ultimately show ?thesis
        using JDict by (simp split: prod.splits)
    qed
  qed (use "1.prems" in \<open>simp_all add: path_resolves.simps\<close>)
qed

section \<open>Properties of the loops and of the loop body\<close>

lemma map_result_eq_Inr:
  "map_result f xs = Inr ys \<longleftrightarrow> list_all2 (\<lambda>x y. f x = Inr y) xs ys"
proof (induction xs arbitrary: ys)
  case Nil
  show ?case by auto
next
  case (Cons x xs)
  show ?case
    by (cases ys) (auto simp: ebind_eq_Inr Cons.IH)
qed

lemma map_result_append:
  "map_result f xs = Inr xs' \<Longrightarrow> map_result f ys = Inr ys' \<Longrightarrow> map_result f (xs @ ys) = Inr (xs' @ ys')"
  by (simp add: map_result_eq_Inr list_all2_appendI)

lemma filter_result_eq_Inr:
  "filter_result p xs = Inr ys \<Longrightarrow> ys = filter (\<lambda>x. p x = Inr True) xs"
  by (induction xs arbitrary: ys) (auto simp: ebind_eq_Inr)

lemma filter_result_total:
  "filter_result p xs = Inr ys \<Longrightarrow> x \<in> set xs \<Longrightarrow> \<exists>b. p x = Inr b"
  by (induction xs arbitrary: ys) (auto simp: ebind_eq_Inr)

lemma py_getattr_eq_Inr:
  "py_getattr node name = Inr v \<longleftrightarrow> (\<exists>kvs. node = JDict kvs \<and> map_of kvs name = Some v)"
  by (cases node) (auto split: option.splits)

lemma py_setitem_eq_Inr:
  "py_setitem node k v = Inr node' \<longleftrightarrow> (\<exists>kvs. node = JDict kvs \<and> node' = JDict (dict_set k v kvs))"
  by (cases node) auto

lemma node_cells_dict_set [simp]:
  "node_cells (JDict (dict_set ''cells'' v kvs)) = py_iter v"
  by (simp add: node_cells_def map_of_dict_set)

lemma apply_conditional_result:
  assumes "apply_conditional cond node = Inr node'"
  shows "\<exists>kvs items. node = JDict kvs \<and> node_cells node = Inr items \<and>
           node' = JDict (dict_set ''cells'' (JList (filter (\<lambda>c. eval_conditional cond c = Inr True) items)) kvs)"
  using assms
  by (auto simp: apply_conditional_def ebind_eq_Inr py_getattr_eq_Inr py_setitem_eq_Inr node_cells_def
      dest!: filter_result_eq_Inr)

lemma apply_conditionals_result:
  assumes "apply_conditionals conds node = Inr node'" and "conds \<noteq> []"
  shows "\<exists>kvs items. node = JDict kvs \<and> node_cells node = Inr items \<and>
           node' = JDict (dict_set ''cells'' (JList (filter (passes conds) items)) kvs)"
  using assms
proof (induction conds arbitrary: node)
  case Nil
  then show ?case by simp
next
  case (Cons cond conds)
  from Cons.prems(1) obtain node1 where
    n1: "apply_conditional cond node = Inr node1" and rest: "apply_conditionals conds node1 = Inr node'"
    by (auto simp: ebind_eq_Inr)
  from apply_conditional_result [OF n1] obtain kvs items where
    node: "node = JDict kvs" and items: "node_cells node = Inr items" and
    node1: "node1 = JDict (dict_set ''cells'' (JList (filter (\<lambda>c. eval_conditional cond c = Inr True) items)) kvs)"
    by blast
  show ?case
  proof (cases "conds = []")
    case True
    with rest node items node1 show ?thesis
      by (simp add: passes_def)
  next
    case False
    from Cons.IH [OF rest False] node1 obtain kvs1 items1 where
      "node1 = JDict kvs1" "node_cells node1 = Inr items1"
      "node' = JDict (dict_set ''cells'' (JList (filter (passes conds) items1)) kvs1)"
      by blast
    with node1 have "node' = JDict (dict_set ''cells'' (JList (filter (passes conds)
        (filter (\<lambda>c. eval_conditional cond c = Inr True) items)))
        (dict_set ''cells'' (JList (filter (\<lambda>c. eval_conditional cond c = Inr True) items)) kvs))"
      by auto
    moreover have "dict_set k v (dict_set k w xs) = dict_set k v xs" for k v w and xs :: "(string \<times> json) list"
      by (induction xs) auto
    moreover have "filter (passes conds) (filter (\<lambda>c. eval_conditional cond c = Inr True) items)
        = filter (passes (cond # conds)) items"
      by (auto simp: passes_def intro: filter_cong)
    ultimately show ?thesis
      using node items by auto
  qed
qed

lemma map_result_stable:
  assumes "stable body" and "map_result body xs = Inr ys" and "\<forall>x \<in> set xs. \<exists>s. x = JStr s"
  shows "ys = xs"
  using assms(2,3)
proof (induction xs arbitrary: ys)
  case Nil
  then show ?case by simp
next
  case (Cons x xs)
  then show ?case
    using assms(1) by (auto simp: ebind_eq_Inr stable_def)
qed

lemma py_for_mut_result:
  assumes "py_for_mut body c = Inr c'" and "stable body"
  shows "\<exists>items ys. py_iter c = Inr items \<and> map_result body items = Inr ys \<and> py_iter c' = Inr ys \<and>
           c' = (case c of JList xs \<Rightarrow> JList ys | _ \<Rightarrow> c)"
proof (cases c)
  case (JList xs)
  with assms(1) show ?thesis
    by (auto simp: ebind_eq_Inr)
next
  case (JStr s)
  with assms(1) obtain ys where ys: "map_result body (map (\<lambda>ch. JStr [ch]) s) = Inr ys" and c': "c' = c"
    by (auto simp: ebind_eq_Inr)
  from map_result_stable [OF assms(2) ys] have "ys = map (\<lambda>ch. JStr [ch]) s"
    by auto
  with JStr ys c' show ?thesis
    by simp
next
  case (JDict kvs)
  with assms(1) obtain ys where ys: "map_result body (map (\<lambda>kv. JStr (fst kv)) kvs) = Inr ys" and c': "c' = c"
    by (auto simp: ebind_eq_Inr)
  from map_result_stable [OF assms(2) ys] have "ys = map (\<lambda>kv. JStr (fst kv)) kvs"
    by auto
  with JDict ys c' show ?thesis
    by simp
qed (use assms(1) in simp_all)

lemma visit_cells_result:
  assumes "visit_cells conds body node = Inr node'" and "stable body"
  shows "\<exists>items cs'. node_cells node = Inr items \<and>
           map_result body (filter (passes conds) items) = Inr cs' \<and> node_cells node' = Inr cs'"
proof -
  from assms(1) obtain node1 kvs1 cells cells' where
    n1: "apply_conditionals conds node = Inr node1" and
    kvs1: "node1 = JDict kvs1" and cells: "map_of kvs1 ''cells'' = Some cells" and
    loop: "py_for_mut body cells = Inr cells'" and
    node': "node' = JDict (dict_set ''cells'' cells' kvs1)"
    by (auto simp: visit_cells_def ebind_eq_Inr py_getattr_eq_Inr py_setitem_eq_Inr)
  from py_for_mut_result [OF loop assms(2)] obtain items1 ys where
    it: "py_iter cells = Inr items1" and ys: "map_result body items1 = Inr ys" and
    it': "py_iter cells' = Inr ys"
    by blast
  have "\<exists>items. node_cells node = Inr items \<and> items1 = filter (passes conds) items"
  proof (cases "conds = []")
    case True
    with n1 kvs1 cells it show ?thesis
      by (simp add: node_cells_def passes_def)
  next
    case False
    from apply_conditionals_result [OF n1 False] kvs1 cells it show ?thesis
      by (auto simp: map_of_dict_set)
  qed
  with ys it' node' show ?thesis
    by auto
qed

lemma visit_cells_stable: "stable (visit_cells conds body)"
  by (cases conds) (simp_all add: stable_def visit_cells_def apply_conditional_def)

lemma worksheets_result:
  assumes "list_all2 (\<lambda>ws ws'. visit_cells conds body ws = Inr ws') wss wss'" and "stable body"
  shows "\<exists>alls css. map_result node_cells wss = Inr alls \<and> map_result node_cells wss' = Inr css \<and>
           map_result body (filter (passes conds) (concat alls)) = Inr (concat css)"
  using assms(1)
proof (induction rule: list_all2_induct)
  case Nil
  show ?case by simp
next
  case (Cons ws wss ws' wss')
  from visit_cells_result [OF Cons.hyps(1) assms(2)] Cons.IH show ?case
    by (auto simp: map_result_append)
qed

lemma visit_cells_other_keys:
  assumes "visit_cells conds body node = Inr node'"
  shows "\<exists>kvs kvs'. node = JDict kvs \<and> node' = JDict kvs' \<and>
           (\<forall>k. k \<noteq> ''cells'' \<longrightarrow> map_of kvs' k = map_of kvs k)"
proof -
  from assms obtain node1 kvs1 cells' where
    n1: "apply_conditionals conds node = Inr node1" and
    kvs1: "node1 = JDict kvs1" and node': "node' = JDict (dict_set ''cells'' cells' kvs1)"
    by (auto simp: visit_cells_def ebind_eq_Inr py_getattr_eq_Inr py_setitem_eq_Inr)
  have "\<exists>kvs. node = JDict kvs \<and> (\<forall>k. k \<noteq> ''cells'' \<longrightarrow> map_of kvs1 k = map_of kvs k)"
  proof (cases "conds = []")
    case True
    with n1 kvs1 show ?thesis by simp
  next
    case False
    from apply_conditionals_result [OF n1 False] kvs1 show ?thesis
      by (auto simp: map_of_dict_set)
  qed
  with node' show ?thesis
    by (auto simp: map_of_dict_set)
qed

lemma for_cells_result:
  assumes "for_cells nb conds body = Inr nb'" and "stable body"
  shows "\<exists>all cs'. nb_cells nb = Inr all \<and>
           map_result body (filter (passes conds) all) = Inr cs' \<and> nb_cells nb' = Inr cs'"
proof -
  from assms(1) obtain nbformat legacy where
    v: "py_getattr nb ''nbformat'' = Inr nbformat" and legacy: "py_lt4 nbformat = Inr legacy"
    by (auto simp: for_cells_def ebind_eq_Inr)
  show ?thesis
  proof (cases legacy)
    case False
    with assms(1) v legacy have visit: "visit_cells conds body nb = Inr nb'"
      by (simp add: for_cells_def)
    from visit_cells_other_keys [OF visit] obtain kvs kvs' where
      "nb = JDict kvs" "nb' = JDict kvs'" "map_of kvs' ''nbformat'' = map_of kvs ''nbformat''"
      by auto
    with visit_cells_result [OF visit assms(2)] v legacy False show ?thesis
      by (auto simp: nb_cells_def py_getattr_eq_Inr)
  next
    case True
    with assms(1) v legacy obtain kvs wss wss' where
      nb: "nb = JDict kvs" and wss: "map_of kvs ''worksheets'' = Some wss" and
      loop: "py_for_mut (visit_cells conds body) wss = Inr wss'" and
      nb': "nb' = JDict (dict_set ''worksheets'' wss' kvs)"
      by (auto simp: for_cells_def ebind_eq_Inr py_getattr_eq_Inr py_setitem_eq_Inr)
    from py_for_mut_result [OF loop visit_cells_stable] obtain items ys where
      it: "py_iter wss = Inr items" and ys: "map_result (visit_cells conds body) items = Inr ys" and
      it': "py_iter wss' = Inr ys"
      by blast
    from ys have "list_all2 (\<lambda>ws ws'. visit_cells conds body ws = Inr ws') items ys"
      by (simp add: map_result_eq_Inr)
    from worksheets_result [OF this assms(2)] obtain alls css where
      "map_result node_cells items = Inr alls" "map_result node_cells ys = Inr css"
      "map_result body (filter (passes conds) (concat alls)) = Inr (concat css)"
      by blast
    with nb wss nb' it it' v legacy True show ?thesis
      by (auto simp: nb_cells_def map_of_dict_set)
  qed
qed

lemma dict_set_twice: "dict_set k v (dict_set k w kvs) = dict_set k v kvs"
  by (induction kvs) auto

lemma py_getitem_eq_Inr:
  "py_getitem node name = Inr v \<longleftrightarrow> (\<exists>kvs. node = JDict kvs \<and> map_of kvs name = Some v)"
  by (cases node) (auto split: option.splits)

lemma strip_outputs_result:
  assumes "strip_outputs args k (JDict c) = Inr cell1" and "map_of c ''outputs'' = Some outs"
  shows "\<exists>outs1 outs2.
           (if k \<noteq> Some True
            then \<exists>items. py_iter outs = Inr items \<and>
                   outs1 = JList (filter (\<lambda>output. get_size output \<le> max_size args) items)
            else outs1 = outs) \<and>
           (if keep_count args then outs2 = outs1 else py_for_mut null_count outs1 = Inr outs2) \<and>
           cell1 = JDict (dict_set ''outputs'' outs2 c)"
proof -
  from assms obtain c1 outs1 where
    a: "if k \<noteq> Some True
        then \<exists>items. py_iter outs = Inr items \<and>
               outs1 = JList (filter (\<lambda>output. get_size output \<le> max_size args) items)
        else outs1 = outs" and
    c1: "c1 = dict_set ''outputs'' outs1 c" and
    b: "(if \<not> keep_count args then
       ebind (py_getitem (JDict c1) ''outputs'') (\<lambda>outputs.
       ebind (py_for_mut null_count outputs) (\<lambda>outputs'.
       py_setitem (JDict c1) ''outputs'' outputs'))
     else Inr (JDict c1)) = Inr cell1"
    by (cases "k \<noteq> Some True") (auto simp: strip_outputs_def ebind_eq_Inr dict_set_same)
  show ?thesis
  proof (cases "keep_count args")
    case True
    with a b c1 show ?thesis by auto
  next
    case False
    with b c1 obtain outs2 where "py_for_mut null_count outs1 = Inr outs2"
      "cell1 = JDict (dict_set ''outputs'' outs2 c)"
      by (auto simp: ebind_eq_Inr map_of_dict_set dict_set_twice)
    with a False show ?thesis by auto
  qed
qed

lemma strip_cell_result:
  assumes "strip_cell args keep cell_keys (JDict c) = Inr c'"
  shows "\<exists>k c1. determine_keep_output (JDict c) keep (strip_init_cells args) = Inr k \<and>
           (case map_of c ''outputs'' of
              None \<Rightarrow> c1 = c
            | Some outs \<Rightarrow> strip_outputs args k (JDict c) = Inr (JDict c1)) \<and>
           c' = pop_fields cell_keys
                  (JDict (if keep_count args then c1
                          else null_field ''execution_count'' (null_field ''prompt_number'' c1)))"
proof -
  from assms obtain k cell1 where
    k: "determine_keep_output (JDict c) keep (strip_init_cells args) = Inr k" and
    cell1: "(if map_of c ''outputs'' \<noteq> None then strip_outputs args k (JDict c) else Inr (JDict c)) = Inr cell1" and
    rest: "ebind (py_in ''prompt_number'' cell1) (\<lambda>has_prompt_number.
     ebind (if has_prompt_number \<and> \<not> keep_count args
            then py_setitem cell1 ''prompt_number'' JNull else Inr cell1) (\<lambda>cell2.
     ebind (py_in ''execution_count'' cell2) (\<lambda>has_execution_count.
     ebind (if has_execution_count \<and> \<not> keep_count args
            then py_setitem cell2 ''execution_count'' JNull else Inr cell2) (\<lambda>cell3.
     Inr (pop_fields cell_keys cell3))))) = Inr c'"
    by (auto simp: strip_cell_def ebind_eq_Inr)
  have "\<exists>c1. cell1 = JDict c1"
  proof (cases "map_of c ''outputs''")
    case None
    with cell1 show ?thesis by auto
  next
    case (Some outs)
    with cell1 strip_outputs_result [of args k c cell1 outs] show ?thesis by auto
  qed
  then obtain c1 where c1: "cell1 = JDict c1" ..
  with rest have "c' = pop_fields cell_keys
                  (JDict (if keep_count args then c1
                          else null_field ''execution_count'' (null_field ''prompt_number'' c1)))"
    by (auto simp: null_field_def map_of_dict_set split: if_splits)
  with k cell1 c1 show ?thesis
    by (auto split: option.splits)
qed

lemma pop_recursive_kind:
  "is_dict (snd (pop_recursive d key dflt)) = is_dict d"
  by (subst pop_recursive.simps) (auto split: json.splits option.splits prod.splits)

lemma pop_recursive_keys:
  assumes "snd (pop_recursive (JDict kvs) key dflt) = JDict kvs'" and "map_of kvs' k = Some v'"
  shows "\<exists>v. map_of kvs k = Some v \<and> (v' = v \<or> is_dict v \<and> is_dict v')"
proof (cases "map_of kvs key")
  case (Some x)
  with assms show ?thesis
    by (auto simp: pop_recursive_literal map_of_dict_del split: if_splits)
next
  case None
  show ?thesis
  proof (cases "CHR ''.'' \<in> set key \<and> map_of kvs (key_head key) \<noteq> None")
    case False
    with None assms show ?thesis
      by (auto simp: pop_recursive_absent)
  next
    case True
    then obtain sub where sub: "map_of kvs (key_head key) = Some sub" by auto
    show ?thesis
    proof (cases "is_dict sub")
      case False
      then have "pop_recursive sub (key_tail key) dflt = (dflt, sub)"
        by (cases sub) (simp_all add: pop_recursive.simps)
      with None True sub assms show ?thesis
        by (auto simp: pop_recursive_nested dict_set_same)
    next
      case dict: True
      then have "is_dict (snd (pop_recursive sub (key_tail key) dflt))"
        by (simp add: pop_recursive_kind)
      with None True sub assms dict show ?thesis
        by (auto simp: pop_recursive_nested map_of_dict_set split: prod.splits if_splits)
    qed
  qed
qed

lemma pop_fields_dict:
  "\<exists>kvs'. pop_fields cell_keys (JDict kvs) = JDict kvs' \<and>
     (\<forall>k v'. map_of kvs' k = Some v' \<longrightarrow> (\<exists>v. map_of kvs k = Some v \<and> (v' = v \<or> is_dict v \<and> is_dict v')))"
proof (induction cell_keys arbitrary: kvs)
  case Nil
  show ?case by (simp add: pop_fields_def)
next
  case (Cons key keys)
  obtain kvs1 where kvs1: "snd (pop_recursive (JDict kvs) key JNull) = JDict kvs1"
    using pop_recursive_kind [of "JDict kvs" key JNull]
    by (cases "snd (pop_recursive (JDict kvs) key JNull)") auto
  from Cons.IH [of kvs1] obtain kvs' where
    kvs': "pop_fields keys (JDict kvs1) = JDict kvs'" and
    keep: "\<forall>k v'. map_of kvs' k = Some v' \<longrightarrow> (\<exists>v. map_of kvs1 k = Some v \<and> (v' = v \<or> is_dict v \<and> is_dict v'))"
    by blast
  have "pop_fields (key # keys) (JDict kvs) = JDict kvs'"
    using kvs1 kvs' by (simp add: pop_fields_def)
  moreover have "\<exists>v. map_of kvs k = Some v \<and> (v' = v \<or> is_dict v \<and> is_dict v')"
    if "map_of kvs' k = Some v'" for k v'
  proof -
    from keep that obtain v1 where v1: "map_of kvs1 k = Some v1" "v' = v1 \<or> is_dict v1 \<and> is_dict v'"
      by blast
    from pop_recursive_keys [OF kvs1 v1(1)] v1(2) show ?thesis
      by auto
  qed
  ultimately show ?case by blast
qed

lemma pop_fields_not_dict: "\<not> is_dict d \<Longrightarrow> pop_fields cell_keys d = d"
proof (induction cell_keys)
  case Nil
  show ?case by (simp add: pop_fields_def)
next
  case (Cons key keys)
  then have "pop_recursive d key JNull = (JNull, d)"
    by (cases d) (simp_all add: pop_recursive.simps)
  with Cons show ?case
    by (simp add: pop_fields_def)
qed

lemma strip_cell_stable: "stable (strip_cell args keep cell_keys)"
  by (auto simp: stable_def strip_cell_def strip_outputs_def ebind_eq_Inr pop_fields_not_dict split: if_splits)

lemma pop_metadata_result:
  assumes "pop_metadata keys nb = Inr nb1"
  shows "keys = [] \<and> nb1 = nb \<or>
         (\<exists>kvs md. nb = JDict kvs \<and> map_of kvs ''metadata'' = Some md \<and>
            nb1 = JDict (dict_set ''metadata'' (pop_fields keys md) kvs))"
  using assms
proof (induction keys arbitrary: nb)
  case Nil
  then show ?case by simp
next
  case (Cons key keys)
  from Cons.prems obtain kvs md where
    nb: "nb = JDict kvs" and md: "map_of kvs ''metadata'' = Some md" and
    rest: "pop_metadata keys (JDict (dict_set ''metadata'' (snd (pop_recursive md key JNull)) kvs)) = Inr nb1"
    by (auto simp: ebind_eq_Inr py_getattr_eq_Inr)
  from Cons.IH [OF rest] nb md show ?case
    by (auto simp: pop_fields_def map_of_dict_set dict_set_twice)
qed

lemma pop_metadata_getattr:
  assumes "pop_metadata keys nb = Inr nb1" and "name \<noteq> ''metadata''"
  shows "py_getattr nb1 name = py_getattr nb name"
  using pop_metadata_result [OF assms(1)] assms(2) by (auto simp: map_of_dict_set)

lemma pop_metadata_nb_cells:
  assumes "pop_metadata keys nb = Inr nb1"
  shows "nb_cells nb1 = nb_cells nb"
  by (simp add: nb_cells_def node_cells_def pop_metadata_getattr [OF assms] cong: if_cong)

lemma strip_output_success:
  assumes "snd (strip_output nb args) = Inr nb'"
  shows "\<exists>keep all cs'. effective_keep_output nb args = Inr keep \<and> nb_cells nb = Inr all \<and>
           map_result (strip_cell args keep (keys_for ''cell'' (extra_keys args)))
             (filter (passes (conditionals args)) all) = Inr cs' \<and>
           nb_cells nb' = Inr cs'"
proof -
  from assms obtain keep nb1 where
    keep: "effective_keep_output nb args = Inr keep" and
    nb1: "pop_metadata (keys_for ''metadata'' (extra_keys args)) nb = Inr nb1" and
    loop: "for_cells nb1 (conditionals args) (strip_cell args keep (keys_for ''cell'' (extra_keys args))) = Inr nb'"
    by (auto simp: strip_output_def ebind_eq_Inr split: sum.splits)
  from for_cells_result [OF loop strip_cell_stable] pop_metadata_nb_cells [OF nb1] keep
  show ?thesis by auto
qed

lemma map_result_Inr_all:
  "map_result f xs = Inr ys \<Longrightarrow> x \<in> set xs \<Longrightarrow> \<exists>y. f x = Inr y"
  by (induction xs arbitrary: ys) (auto simp: ebind_eq_Inr)

lemma py_in_error: "py_in k x = Inl e \<Longrightarrow> e = ShapeError"
  by (cases x) simp_all

lemma keys_for_valid:
  "keys_for namespace (filter (\<lambda>key. \<not> invalid_extra_key key) keys) = keys_for namespace keys"
  by (simp add: keys_for_def conj_commute cong: conj_cong)

lemma strip_cell_extra_keys:
  "strip_cell (args\<lparr>extra_keys := keys\<rparr>) = strip_cell args"
  by (intro ext) (simp add: strip_cell_def strip_outputs_def cong: if_cong)

lemma get_size_nonneg: "0 \<le> get_size x"
  by (induction x rule: get_size.induct) (auto intro!: sum_list_nonneg)

lemma pop_recursive_keeps:
  assumes "key \<noteq> k" and "map_of kvs k = Some v" and "\<not> is_dict v"
  shows "\<exists>kvs'. snd (pop_recursive (JDict kvs) key dflt) = JDict kvs' \<and> map_of kvs' k = Some v"
proof (cases "map_of kvs key")
  case (Some x)
  with assms show ?thesis
    by (simp add: pop_recursive_literal map_of_dict_del)
next
  case None
  show ?thesis
  proof (cases "CHR ''.'' \<in> set key \<and> map_of kvs (key_head key) \<noteq> None")
    case False
    with None assms show ?thesis
      by (auto simp: pop_recursive_absent)
  next
    case True
    then obtain sub where sub: "map_of kvs (key_head key) = Some sub" by auto
    show ?thesis
    proof (cases "key_head key = k")
      case same: True
      with sub assms have "\<not> is_dict sub" by simp
      then have "pop_recursive sub (key_tail key) dflt = (dflt, sub)"
        by (cases sub) (simp_all add: pop_recursive.simps)
      with None True sub assms show ?thesis
        by (simp add: pop_recursive_nested dict_set_same)
    next
      case False
      with None True sub assms show ?thesis
        by (simp add: pop_recursive_nested map_of_dict_set split: prod.splits)
    qed
  qed
qed

lemma pop_fields_keeps:
  assumes "k \<notin> set cell_keys" and "map_of kvs k = Some v" and "\<not> is_dict v"
  shows "\<exists>kvs'. pop_fields cell_keys (JDict kvs) = JDict kvs' \<and> map_of kvs' k = Some v"
  using assms(1,2)
proof (induction cell_keys arbitrary: kvs)
  case Nil
  then show ?case by (simp add: pop_fields_def)
next
  case (Cons key keys)
  from Cons.prems have "key \<noteq> k" by auto
  from pop_recursive_keeps [OF this Cons.prems(2) assms(3)] obtain kvs1 where
    kvs1: "snd (pop_recursive (JDict kvs) key JNull) = JDict kvs1" "map_of kvs1 k = Some v"
    by blast
  from Cons.IH [OF _ kvs1(2)] Cons.prems(1) obtain kvs' where
    "pop_fields keys (JDict kvs1) = JDict kvs'" "map_of kvs' k = Some v"
    by auto
  with kvs1 show ?case
    by (simp add: pop_fields_def)
qed

lemma null_field_other: "k \<noteq> name \<Longrightarrow> map_of (null_field name c) k = map_of c k"
  by (simp add: null_field_def map_of_dict_set)

lemma strip_cell_not_dict:
  assumes "strip_cell args keep cell_keys c = Inr c'" and "\<not> is_dict c"
  shows "c' = c"
  using assms
  by (cases c)
    (auto simp: strip_cell_def strip_outputs_def ebind_eq_Inr pop_fields_not_dict split: if_splits)

lemma null_count_result:
  assumes "null_count x = Inr y"
  shows "counter_null y ''execution_count''"
  using assms
  by (cases x)
    (auto simp: null_count_def counter_null_def ebind_eq_Inr map_of_dict_set split: if_splits option.splits)

lemma null_counts_result:
  assumes "py_for_mut null_count outs1 = Inr (JList l)"
  shows "list_all (\<lambda>output. counter_null output ''execution_count'') l"
proof -
  from assms obtain l1 where "map_result null_count l1 = Inr l"
    by (cases outs1) (auto simp: ebind_eq_Inr)
  then have "list_all2 (\<lambda>x y. null_count x = Inr y) l1 l"
    by (simp add: map_result_eq_Inr)
  then show ?thesis
    by (induction rule: list_all2_induct) (auto intro: null_count_result)
qed

lemma field_not_dict: "\<not> is_dict c \<Longrightarrow> field c name = None"
  by (cases c) simp_all

lemma strip_cell_view:
  assumes "strip_cell args keep cell_keys (JDict kvs) = Inr c'"
  obtains k c1 kvs' where
    "c' = JDict kvs'"
    "\<And>name v'. map_of kvs' name = Some v' \<Longrightarrow>
        \<exists>v. map_of (if keep_count args then c1
                      else null_field ''execution_count'' (null_field ''prompt_number'' c1)) name = Some v \<and>
             (v' = v \<or> is_dict v \<and> is_dict v')"
    "\<And>name. name \<noteq> ''outputs'' \<Longrightarrow> map_of c1 name = map_of kvs name"
    "\<And>v. map_of c1 ''outputs'' = Some v \<Longrightarrow>
        \<exists>outs outs1. map_of kvs ''outputs'' = Some outs \<and>
           (if k \<noteq> Some True
            then \<exists>items. py_iter outs = Inr items \<and>
                   outs1 = JList (filter (\<lambda>output. get_size output \<le> max_size args) items)
            else outs1 = outs) \<and>
           (if keep_count args then v = outs1 else py_for_mut null_count outs1 = Inr v)"
proof -
  from strip_cell_result [OF assms] obtain k c1 where
    c1: "case map_of kvs ''outputs'' of
              None \<Rightarrow> c1 = kvs
            | Some outs \<Rightarrow> strip_outputs args k (JDict kvs) = Inr (JDict c1)" and
    c': "c' = pop_fields cell_keys
                  (JDict (if keep_count args then c1
                          else null_field ''execution_count'' (null_field ''prompt_number'' c1)))"
    by blast
  let ?cf = "if keep_count args then c1
             else null_field ''execution_count'' (null_field ''prompt_number'' c1)"
  from pop_fields_dict [of cell_keys ?cf] c' obtain kvs' where
    kvs': "c' = JDict kvs'" and
    origin: "\<forall>name v'. map_of kvs' name = Some v' \<longrightarrow>
               (\<exists>v. map_of ?cf name = Some v \<and> (v' = v \<or> is_dict v \<and> is_dict v'))"
    by auto
  have rest: "(\<forall>name. name \<noteq> ''outputs'' \<longrightarrow> map_of c1 name = map_of kvs name) \<and>
     (\<forall>v. map_of c1 ''outputs'' = Some v \<longrightarrow>
        (\<exists>outs outs1. map_of kvs ''outputs'' = Some outs \<and>
           (if k \<noteq> Some True
            then \<exists>items. py_iter outs = Inr items \<and>
                   outs1 = JList (filter (\<lambda>output. get_size output \<le> max_size args) items)
            else outs1 = outs) \<and>
           (if keep_count args then v = outs1 else py_for_mut null_count outs1 = Inr v)))"
  proof (cases "map_of kvs ''outputs''")
    case None
    with c1 show ?thesis by simp
  next
    case (Some outs)
    with c1 have "strip_outputs args k (JDict kvs) = Inr (JDict c1)" by simp
    from strip_outputs_result [OF this Some] obtain outs1 outs2 where
      "if k \<noteq> Some True
            then \<exists>items. py_iter outs = Inr items \<and>
                   outs1 = JList (filter (\<lambda>output. get_size output \<le> max_size args) items)
            else outs1 = outs"
      "if keep_count args then outs2 = outs1 else py_for_mut null_count outs1 = Inr outs2"
      "c1 = dict_set ''outputs'' outs2 kvs"
      by auto
    with Some show ?thesis
      by (auto simp: map_of_dict_set)
  qed
  show ?thesis
  proof (rule that [OF kvs'])
    show "\<exists>v. map_of ?cf name = Some v \<and> (v' = v \<or> is_dict v \<and> is_dict v')"
      if "map_of kvs' name = Some v'" for name v'
      using origin that by blast
    show "map_of c1 name = map_of kvs name" if "name \<noteq> ''outputs''" for name
      using rest that by blast
    show "\<exists>outs outs1. map_of kvs ''outputs'' = Some outs \<and>
           (if k \<noteq> Some True
            then \<exists>items. py_iter outs = Inr items \<and>
                   outs1 = JList (filter (\<lambda>output. get_size output \<le> max_size args) items)
            else outs1 = outs) \<and>
           (if keep_count args then v = outs1 else py_for_mut null_count outs1 = Inr v)"
      if "map_of c1 ''outputs'' = Some v" for v
      using rest that by blast
  qed
qed

lemma strip_cell_counts_null:
  assumes "strip_cell args keep cell_keys (JDict kvs) = Inr c'" and "\<not> keep_count args"
  shows "counts_null c'"
proof -
  let ?cf = "\<lambda>c1. null_field ''execution_count'' (null_field ''prompt_number'' c1)"
  from assms(1) show ?thesis
  proof (rule strip_cell_view, goal_cases)
    case (1 k c1 kvs')
    note kvs' = 1(1) and origin0 = 1(2) and other0 = 1(3) and outputs0 = 1(4)
    have origin: "\<exists>v. map_of (?cf c1) name = Some v \<and> (v' = v \<or> is_dict v \<and> is_dict v')"
      if "map_of kvs' name = Some v'" for name v'
      using origin0 [OF that] assms(2) by simp
    have outputs: "\<exists>outs1. py_for_mut null_count outs1 = Inr v" if "map_of c1 ''outputs'' = Some v" for v
    proof -
      from outputs0 [OF that] obtain outs1 where
        "if keep_count args then v = outs1 else py_for_mut null_count outs1 = Inr v"
        by blast
      with assms(2) show ?thesis by auto
    qed
    have nulled: "v = JNull"
      if "name = ''prompt_number'' \<or> name = ''execution_count''" and "map_of (?cf c1) name = Some v" for name v
      using that by (auto simp: null_field_def map_of_dict_set split: if_splits)
    have counter: "counter_null c' name" if name: "name = ''prompt_number'' \<or> name = ''execution_count''" for name
    proof (cases "map_of kvs' name")
      case None
      with kvs' show ?thesis by (simp add: counter_null_def)
    next
      case (Some v')
      from origin [OF Some] obtain v where v: "map_of (?cf c1) name = Some v" "v' = v \<or> is_dict v \<and> is_dict v'"
        by blast
      from nulled [OF name v(1)] v(2) have "v' = JNull" by auto
      with Some kvs' show ?thesis
        by (simp add: counter_null_def)
    qed
    have outs: "list_all (\<lambda>output. counter_null output ''execution_count'') outs'"
      if "map_of kvs' ''outputs'' = Some (JList outs')" for outs'
    proof -
      from origin [OF that]
      have "map_of (?cf c1) ''outputs'' = Some (JList outs')"
        by auto
      then have "map_of c1 ''outputs'' = Some (JList outs')"
        by (simp add: null_field_other)
      from outputs [OF this] obtain outs1 where "py_for_mut null_count outs1 = Inr (JList outs')"
        by blast
      then show ?thesis
        by (rule null_counts_result)
    qed
    have "case field c' ''outputs'' of
           Some (JList outs') \<Rightarrow> list_all (\<lambda>output. counter_null output ''execution_count'') outs'
         | _ \<Rightarrow> True"
    proof (cases "map_of kvs' ''outputs''")
      case None
      with kvs' show ?thesis by simp
    next
      case (Some v)
      with kvs' outs show ?thesis
        by (cases v) simp_all
    qed
    with counter show ?case
      by (simp add: counts_null_def)
  qed
qed

lemma pop_recursive_removes:
  assumes "snd (pop_recursive (JDict kvs) key dflt) = JDict kvs'"
  shows "map_of kvs' key = None"
proof (cases "map_of kvs key")
  case (Some x)
  with assms show ?thesis
    by (auto simp: pop_recursive_literal map_of_dict_del)
next
  case None
  show ?thesis
  proof (cases "CHR ''.'' \<in> set key \<and> map_of kvs (key_head key) \<noteq> None")
    case False
    with None assms show ?thesis
      by (auto simp: pop_recursive_absent)
  next
    case True
    then obtain sub where sub: "map_of kvs (key_head key) = Some sub" by auto
    from True have "key_head key \<noteq> key"
      by (auto simp: key_head_def dest: set_takeWhileD)
    with None True sub assms show ?thesis
      by (auto simp: pop_recursive_nested map_of_dict_set split: prod.splits)
  qed
qed

lemma pop_recursive_present:
  assumes "key \<noteq> k" and "map_of kvs k = Some v"
  shows "\<exists>kvs' v'. snd (pop_recursive (JDict kvs) key dflt) = JDict kvs' \<and> map_of kvs' k = Some v' \<and>
           is_dict v' = is_dict v \<and> (\<not> is_dict v \<or> key_head key \<noteq> k \<longrightarrow> v' = v)"
proof (cases "map_of kvs key")
  case (Some x)
  with assms show ?thesis
    by (simp add: pop_recursive_literal map_of_dict_del)
next
  case None
  show ?thesis
  proof (cases "CHR ''.'' \<in> set key \<and> map_of kvs (key_head key) \<noteq> None")
    case False
    with None assms show ?thesis
      by (auto simp: pop_recursive_absent)
  next
    case True
    then obtain sub where sub: "map_of kvs (key_head key) = Some sub" by auto
    show ?thesis
    proof (cases "key_head key = k")
      case same: True
      with sub assms have v: "sub = v" by simp
      have kind: "is_dict (snd (pop_recursive v (key_tail key) dflt)) = is_dict v"
        by (rule pop_recursive_kind)
      have "snd (pop_recursive v (key_tail key) dflt) = v" if "\<not> is_dict v"
        using that by (cases v) (simp_all add: pop_recursive.simps)
      with None True sub v same kind show ?thesis
        by (auto simp: pop_recursive_nested map_of_dict_set split: prod.splits)
    next
      case False
      with None True sub assms show ?thesis
        by (simp add: pop_recursive_nested map_of_dict_set split: prod.splits)
    qed
  qed
qed

lemma pop_fields_present:
  assumes "k \<notin> set cell_keys" and "map_of kvs k = Some v"
  shows "\<exists>kvs' v'. pop_fields cell_keys (JDict kvs) = JDict kvs' \<and> map_of kvs' k = Some v' \<and>
           is_dict v' = is_dict v \<and>
           (\<not> is_dict v \<or> (\<forall>key \<in> set cell_keys. key_head key \<noteq> k) \<longrightarrow> v' = v)"
  using assms
proof (induction cell_keys arbitrary: kvs v)
  case Nil
  then show ?case by (simp add: pop_fields_def)
next
  case (Cons key keys)
  from Cons.prems have "key \<noteq> k" by auto
  from pop_recursive_present [OF this Cons.prems(2), of JNull] obtain kvs1 v1 where
    kvs1: "snd (pop_recursive (JDict kvs) key JNull) = JDict kvs1" and
    v1: "map_of kvs1 k = Some v1" "is_dict v1 = is_dict v" "\<not> is_dict v \<or> key_head key \<noteq> k \<longrightarrow> v1 = v"
    by blast
  from Cons.prems(1) have "k \<notin> set keys" by simp
  from Cons.IH [OF this v1(1)] obtain kvs' v' where
    r: "pop_fields keys (JDict kvs1) = JDict kvs'" "map_of kvs' k = Some v'" "is_dict v' = is_dict v1"
      "\<not> is_dict v1 \<or> (\<forall>key \<in> set keys. key_head key \<noteq> k) \<longrightarrow> v' = v1"
    by blast
  have "pop_fields (key # keys) (JDict kvs) = JDict kvs'"
    using kvs1 r(1) by (simp add: pop_fields_def)
  moreover have "is_dict v' = is_dict v"
    using r(3) v1(2) by simp
  moreover have "v' = v" if "\<not> is_dict v \<or> (\<forall>key \<in> set (key # keys). key_head key \<noteq> k)"
    using that r(4) v1(2,3) by auto
  ultimately show ?case
    using r(2) by blast
qed

lemma pop_fields_absent:
  assumes "pop_fields cell_keys (JDict kvs) = JDict kvs'" and "map_of kvs k = None"
  shows "map_of kvs' k = None"
proof (rule ccontr)
  assume "map_of kvs' k \<noteq> None"
  then obtain v' where v': "map_of kvs' k = Some v'" by auto
  from pop_fields_dict [of cell_keys kvs] assms(1) have
    "\<forall>k v'. map_of kvs' k = Some v' \<longrightarrow>
       (\<exists>v. map_of kvs k = Some v \<and> (v' = v \<or> is_dict v \<and> is_dict v'))"
    by auto
  with v' obtain v where "map_of kvs k = Some v" by blast
  with assms(2) show False by simp
qed

lemma pop_fields_removes:
  assumes "pop_fields cell_keys (JDict kvs) = JDict kvs'" and "k \<in> set cell_keys"
  shows "map_of kvs' k = None"
  using assms
proof (induction cell_keys arbitrary: kvs)
  case Nil
  then show ?case by simp
next
  case (Cons key keys)
  obtain kvs1 where kvs1: "snd (pop_recursive (JDict kvs) key JNull) = JDict kvs1"
    using pop_recursive_kind [of "JDict kvs" key JNull]
    by (cases "snd (pop_recursive (JDict kvs) key JNull)") auto
  with Cons.prems(1) have rest: "pop_fields keys (JDict kvs1) = JDict kvs'"
    by (simp add: pop_fields_def)
  show ?case
  proof (cases "key = k")
    case True
    with pop_recursive_removes [OF kvs1] have "map_of kvs1 k = None" by simp
    with rest show ?thesis by (rule pop_fields_absent)
  next
    case False
    with Cons.prems(2) have "k \<in> set keys" by simp
    with Cons.IH rest show ?thesis by blast
  qed
qed

lemma pop_fields_kept_value:
  assumes "pop_fields cell_keys (JDict kvs) = JDict kvs'"
  shows "kept_value cell_keys name (map_of kvs name) (map_of kvs' name)"
proof (cases "name \<in> set cell_keys")
  case True
  with pop_fields_removes [OF assms] show ?thesis
    by (simp add: kept_value_def)
next
  case False
  show ?thesis
  proof (cases "map_of kvs name")
    case None
    with pop_fields_absent [OF assms] False show ?thesis
      by (simp add: kept_value_def)
  next
    case (Some v)
    from pop_fields_present [OF False Some] assms obtain v' where
      "map_of kvs' name = Some v'" "is_dict v' = is_dict v"
      "\<not> is_dict v \<or> (\<forall>key \<in> set cell_keys. key_head key \<noteq> name) \<longrightarrow> v' = v"
      by auto
    with False Some show ?thesis
      by (auto simp: kept_value_def list_ex_iff)
  qed
qed

lemma kept_value_None: "kept_value cell_keys name None None"
  by (simp add: kept_value_def)

lemma strip_cell_counts_kept:
  assumes "strip_cell args keep cell_keys (JDict kvs) = Inr c'" and "keep_count args"
  shows "counts_kept args cell_keys (JDict kvs) c'"
proof -
  from strip_cell_result [OF assms(1)] obtain k c1 where
    c1: "case map_of kvs ''outputs'' of
              None \<Rightarrow> c1 = kvs
            | Some outs \<Rightarrow> strip_outputs args k (JDict kvs) = Inr (JDict c1)" and
    c'0: "c' = pop_fields cell_keys
                  (JDict (if keep_count args then c1
                          else null_field ''execution_count'' (null_field ''prompt_number'' c1)))"
    by blast
  from c'0 assms(2) have c'1: "c' = pop_fields cell_keys (JDict c1)"
    by simp
  from pop_fields_dict [of cell_keys c1] c'1 obtain kvs' where
    kvs': "c' = JDict kvs'" and pops: "pop_fields cell_keys (JDict c1) = JDict kvs'"
    by auto
  have kept: "kept_value cell_keys name (map_of c1 name) (map_of kvs' name)" for name
    using pops by (rule pop_fields_kept_value)
  have view: "(\<forall>name. name \<noteq> ''outputs'' \<longrightarrow> map_of c1 name = map_of kvs name) \<and>
      (map_of c1 ''outputs'' = map_of kvs ''outputs'' \<or>
       (\<exists>items. ebind (py_getattr (JDict kvs) ''outputs'') py_iter = Inr items \<and>
          map_of c1 ''outputs'' = Some (JList (filter (\<lambda>output. get_size output \<le> max_size args) items))))"
  proof (cases "map_of kvs ''outputs''")
    case None
    with c1 show ?thesis by simp
  next
    case (Some outs)
    with c1 have run: "strip_outputs args k (JDict kvs) = Inr (JDict c1)"
      by simp
    from strip_outputs_result [OF run Some] obtain outs1 outs2 where
      outs1: "if k \<noteq> Some True
            then \<exists>items. py_iter outs = Inr items \<and>
                   outs1 = JList (filter (\<lambda>output. get_size output \<le> max_size args) items)
            else outs1 = outs" and
      outs2: "if keep_count args then outs2 = outs1 else py_for_mut null_count outs1 = Inr outs2" and
      c1': "c1 = dict_set ''outputs'' outs2 kvs"
      by blast
    from outs2 assms(2) c1' have c1'': "c1 = dict_set ''outputs'' outs1 kvs" by simp
    show ?thesis
    proof (cases "k \<noteq> Some True")
      case True
      with outs1 obtain items where "py_iter outs = Inr items"
        "outs1 = JList (filter (\<lambda>output. get_size output \<le> max_size args) items)"
        by auto
      with c1'' Some show ?thesis
        by (simp add: map_of_dict_set)
    next
      case False
      with outs1 c1'' Some show ?thesis
        by (simp add: map_of_dict_set)
    qed
  qed
  from view kept [of "''prompt_number''"]
  have pn: "kept_value cell_keys ''prompt_number'' (map_of kvs ''prompt_number'') (map_of kvs' ''prompt_number'')"
    by simp
  from view kept [of "''execution_count''"]
  have ec: "kept_value cell_keys ''execution_count'' (map_of kvs ''execution_count'') (map_of kvs' ''execution_count'')"
    by simp
  from view kept [of "''outputs''"]
  have "kept_value cell_keys ''outputs'' (map_of kvs ''outputs'') (map_of kvs' ''outputs'') \<or>
       (\<exists>items. ebind (py_getattr (JDict kvs) ''outputs'') py_iter = Inr items \<and>
          kept_value cell_keys ''outputs''
            (Some (JList (filter (\<lambda>output. get_size output \<le> max_size args) items)))
            (map_of kvs' ''outputs''))"
    by auto
  then have out: "kept_value cell_keys ''outputs'' (map_of kvs ''outputs'') (map_of kvs' ''outputs'') \<or>
       (case ebind (py_getattr (JDict kvs) ''outputs'') py_iter of
          Inr items \<Rightarrow>
            kept_value cell_keys ''outputs''
              (Some (JList (filter (\<lambda>output. get_size output \<le> max_size args) items)))
              (map_of kvs' ''outputs'')
        | Inl e \<Rightarrow> False)"
    by auto
  from pn ec out kvs' show ?thesis
    by (simp add: counts_kept_def cong: sum.case_cong)
qed

lemma strip_cell_counts:
  assumes "strip_cell args keep cell_keys c = Inr c'"
  shows "if keep_count args then counts_kept args cell_keys c c' else counts_null c'"
proof (cases "is_dict c")
  case True
  then obtain kvs where "c = JDict kvs" by (cases c) auto
  with assms strip_cell_counts_null strip_cell_counts_kept show ?thesis
    by auto
next
  case False
  with strip_cell_not_dict [OF assms] have "c' = c" "\<And>name. field c name = None"
    by (simp_all add: field_not_dict)
  then show ?thesis
    by (simp add: counts_kept_def counts_null_def counter_null_def kept_value_None)
qed

lemma determine_keep_output_metadata:
  "map_of kvs' ''metadata'' = map_of kvs ''metadata'' \<Longrightarrow>
   determine_keep_output (JDict kvs') d s = determine_keep_output (JDict kvs) d s"
  by (simp add: determine_keep_output_def)

lemma eval_conditional_fields:
  "map_of kvs' ''metadata'' = map_of kvs ''metadata'' \<Longrightarrow>
   map_of kvs' ''source'' = map_of kvs ''source'' \<Longrightarrow>
   eval_conditional cond (JDict kvs') = eval_conditional cond (JDict kvs)"
  by (cases cond) simp_all

lemma strip_cell_keep_count_dict:
  assumes "strip_cell args keep [] (JDict kvs) = Inr c'" and "keep_count args"
  shows "strip_cell args keep [] c' = Inr c' \<and> (\<forall>cond. eval_conditional cond c' = eval_conditional cond (JDict kvs))"
proof -
  from strip_cell_result [OF assms(1)] obtain k c1 where
    k: "determine_keep_output (JDict kvs) keep (strip_init_cells args) = Inr k" and
    c1: "case map_of kvs ''outputs'' of
              None \<Rightarrow> c1 = kvs
            | Some outs \<Rightarrow> strip_outputs args k (JDict kvs) = Inr (JDict c1)" and
    c'0: "c' = pop_fields []
                  (JDict (if keep_count args then c1
                          else null_field ''execution_count'' (null_field ''prompt_number'' c1)))"
    by blast
  from c'0 assms(2) have c': "c' = JDict c1"
    by (simp add: pop_fields_def)
  show ?thesis
  proof (cases "map_of kvs ''outputs''")
    case None
    with c1 c' have "c' = JDict kvs" by simp
    with assms(1) show ?thesis by simp
  next
    case (Some outs)
    with c1 have run: "strip_outputs args k (JDict kvs) = Inr (JDict c1)"
      by simp
    from strip_outputs_result [OF run Some] obtain outs1 outs2 where
      outs1: "if k \<noteq> Some True
            then \<exists>items. py_iter outs = Inr items \<and>
                   outs1 = JList (filter (\<lambda>output. get_size output \<le> max_size args) items)
            else outs1 = outs" and
      outs2: "if keep_count args then outs2 = outs1 else py_for_mut null_count outs1 = Inr outs2" and
      c1': "c1 = dict_set ''outputs'' outs2 kvs"
      by blast
    from outs2 assms(2) have "outs2 = outs1" by simp
    with c1' have c1'': "c1 = dict_set ''outputs'' outs1 kvs" by simp
    have md: "map_of c1 ''metadata'' = map_of kvs ''metadata''" "map_of c1 ''source'' = map_of kvs ''source''"
      and out: "map_of c1 ''outputs'' = Some outs1"
      using c1'' by (simp_all add: map_of_dict_set)
    have k': "determine_keep_output (JDict c1) keep (strip_init_cells args) = Inr k"
      using k determine_keep_output_metadata [OF md(1)] by simp
    have again: "strip_outputs args k (JDict c1) = Inr (JDict c1)"
    proof (cases "k \<noteq> Some True")
      case True
      with outs1 obtain items where
        items: "outs1 = JList (filter (\<lambda>output. get_size output \<le> max_size args) items)"
        by auto
      have "dict_set ''outputs'' outs1 c1 = c1"
        using out by (rule dict_set_same)
      with True out assms(2) items show ?thesis
        by (simp add: strip_outputs_def)
    next
      case False
      with assms(2) show ?thesis
        by (simp add: strip_outputs_def)
    qed
    have "py_in ''outputs'' (JDict c1) = Inr True"
      using out by simp
    with k' again assms(2) have "strip_cell args keep [] (JDict c1) = Inr (JDict c1)"
      by (simp add: strip_cell_def pop_fields_def)
    moreover have "eval_conditional cond (JDict c1) = eval_conditional cond (JDict kvs)" for cond
      using md by (rule eval_conditional_fields)
    ultimately show ?thesis
      using c' by simp
  qed
qed

lemma strip_cell_keep_count:
  assumes "strip_cell args keep [] c = Inr c'" and "keep_count args"
  shows "strip_cell args keep [] c' = Inr c' \<and> (\<forall>cond. eval_conditional cond c' = eval_conditional cond c)"
proof (cases "is_dict c")
  case True
  then obtain kvs where "c = JDict kvs" by (cases c) auto
  with assms strip_cell_keep_count_dict show ?thesis by blast
next
  case False
  with strip_cell_not_dict [OF assms(1)] assms(1) show ?thesis by simp
qed

lemma map_result_idem:
  assumes "\<And>x y. f x = Inr y \<Longrightarrow> f y = Inr y" and "map_result f xs = Inr ys"
  shows "map_result f ys = Inr ys"
proof -
  from assms(2) have "list_all2 (\<lambda>x y. f x = Inr y) xs ys"
    by (simp add: map_result_eq_Inr)
  then have "list_all2 (\<lambda>x y. f x = Inr y) ys ys"
    by (induction rule: list_all2_induct) (auto intro: assms(1))
  then show ?thesis
    by (simp add: map_result_eq_Inr)
qed

lemma py_for_mut_idem:
  assumes "\<And>x y. f x = Inr y \<Longrightarrow> f y = Inr y" and "py_for_mut f c = Inr c'"
  shows "py_for_mut f c' = Inr c'"
proof (cases c)
  case (JList xs)
  with assms(2) obtain ys where "map_result f xs = Inr ys" "c' = JList ys"
    by (auto simp: ebind_eq_Inr)
  with map_result_idem [of f xs ys] assms(1) show ?thesis
    by simp
qed (use assms(2) in \<open>auto simp: ebind_eq_Inr\<close>)

lemma list_all2_set2:
  "list_all2 P xs ys \<Longrightarrow> y \<in> set ys \<Longrightarrow> \<exists>x \<in> set xs. P x y"
  by (induction rule: list_all2_induct) auto

lemma filter_result_all:
  "\<forall>x \<in> set xs. p x = Inr True \<Longrightarrow> filter_result p xs = Inr xs"
  by (induction xs) simp_all

lemma apply_conditionals_all:
  assumes "map_of kvs ''cells'' = Some (JList ys)" and "\<forall>y \<in> set ys. passes conds y"
  shows "apply_conditionals conds (JDict kvs) = Inr (JDict kvs)"
  using assms(2)
proof (induction conds)
  case Nil
  show ?case by simp
next
  case (Cons cond conds)
  then have "\<forall>y \<in> set ys. eval_conditional cond y = Inr True" "\<forall>y \<in> set ys. passes conds y"
    by (simp_all add: passes_def)
  with Cons.IH assms(1) show ?case
    by (simp add: apply_conditional_def filter_result_all dict_set_same)
qed

lemma visit_cells_idem:
  assumes body: "\<And>x y. body x = Inr y \<Longrightarrow> body y = Inr y \<and> (\<forall>cond. eval_conditional cond y = eval_conditional cond x)"
    and "visit_cells conds body node = Inr node'"
  shows "visit_cells conds body node' = Inr node'"
proof -
  from assms(2) obtain node1 kvs1 cells cells' where
    n1: "apply_conditionals conds node = Inr node1" and
    kvs1: "node1 = JDict kvs1" and cells: "map_of kvs1 ''cells'' = Some cells" and
    loop: "py_for_mut body cells = Inr cells'" and
    node': "node' = JDict (dict_set ''cells'' cells' kvs1)"
    by (auto simp: visit_cells_def ebind_eq_Inr py_getattr_eq_Inr py_setitem_eq_Inr)
  from body have idem: "\<And>x y. body x = Inr y \<Longrightarrow> body y = Inr y"
    by blast
  have again: "py_for_mut body cells' = Inr cells'"
    using idem loop by (rule py_for_mut_idem)
  have "apply_conditionals conds node' = Inr node'"
  proof (cases "conds = []")
    case True
    then show ?thesis by simp
  next
    case False
    from apply_conditionals_result [OF n1 False] kvs1 cells obtain items where
      "cells = JList (filter (passes conds) items)"
      by (auto simp: map_of_dict_set)
    with loop obtain ys where ys: "cells' = JList ys"
      "list_all2 (\<lambda>x y. body x = Inr y) (filter (passes conds) items) ys"
      by (auto simp: ebind_eq_Inr map_result_eq_Inr)
    have "passes conds y" if "y \<in> set ys" for y
    proof -
      from list_all2_set2 [OF ys(2) that] obtain x where "passes conds x" "body x = Inr y"
        by auto
      with body [of x y] show ?thesis
        by (simp add: passes_def)
    qed
    with ys(1) node' show ?thesis
      by (simp add: apply_conditionals_all map_of_dict_set)
  qed
  with again node' show ?thesis
    by (simp add: visit_cells_def map_of_dict_set dict_set_twice)
qed

lemma for_cells_idem:
  assumes body: "\<And>x y. body x = Inr y \<Longrightarrow> body y = Inr y \<and> (\<forall>cond. eval_conditional cond y = eval_conditional cond x)"
    and "for_cells nb conds body = Inr nb'"
  shows "for_cells nb' conds body = Inr nb' \<and> py_getattr nb' ''metadata'' = py_getattr nb ''metadata''"
proof -
  from assms(2) obtain nbformat legacy where
    v: "py_getattr nb ''nbformat'' = Inr nbformat" and legacy: "py_lt4 nbformat = Inr legacy"
    by (auto simp: for_cells_def ebind_eq_Inr)
  show ?thesis
  proof (cases legacy)
    case False
    with assms(2) v legacy have visit: "visit_cells conds body nb = Inr nb'"
      by (simp add: for_cells_def)
    from visit_cells_other_keys [OF visit] obtain kvs kvs' where
      keys: "nb = JDict kvs" "nb' = JDict kvs'" "\<forall>k. k \<noteq> ''cells'' \<longrightarrow> map_of kvs' k = map_of kvs k"
      by auto
    with v have "py_getattr nb' ''nbformat'' = Inr nbformat"
      by simp
    with visit_cells_idem [OF body visit] legacy False keys show ?thesis
      by (simp add: for_cells_def)
  next
    case True
    with assms(2) v legacy obtain kvs wss wss' where
      nb: "nb = JDict kvs" and wss: "map_of kvs ''worksheets'' = Some wss" and
      loop: "py_for_mut (visit_cells conds body) wss = Inr wss'" and
      nb': "nb' = JDict (dict_set ''worksheets'' wss' kvs)"
      by (auto simp: for_cells_def ebind_eq_Inr py_getattr_eq_Inr py_setitem_eq_Inr)
    have "py_for_mut (visit_cells conds body) wss' = Inr wss'"
      using visit_cells_idem [OF body] loop by (rule py_for_mut_idem)
    with nb nb' v legacy True show ?thesis
      by (simp add: for_cells_def map_of_dict_set dict_set_twice)
  qed
qed

lemma keys_for_invalid:
  "\<forall>key \<in> set keys. invalid_extra_key key \<Longrightarrow> keys_for namespace keys = []"
  by (auto simp: keys_for_def filter_empty_conv)

lemma ebind_eq_Inl: "ebind m f = Inl e \<longleftrightarrow> m = Inl e \<or> (\<exists>x. m = Inr x \<and> f x = Inl e)"
  by (cases m) simp_all

lemma filter_result_evaluate:
  "\<forall>x \<in> set xs. \<exists>b. p x = Inr b \<Longrightarrow> filter_result p xs = Inr (filter (\<lambda>x. p x = Inr True) xs)"
  by (induction xs) auto

lemma passes_Cons: "passes (cond # conds) c = (eval_conditional cond c = Inr True \<and> passes conds c)"
  by (simp add: passes_def)

lemma apply_conditionals_evaluate:
  assumes "map_of kvs ''cells'' = Some cells" and "py_iter cells = Inr items"
    and "\<forall>c \<in> set items. \<forall>cond \<in> set conds. \<exists>b. eval_conditional cond c = Inr b"
  shows "apply_conditionals conds (JDict kvs) =
           Inr (if conds = [] then JDict kvs
                else JDict (dict_set ''cells'' (JList (filter (passes conds) items)) kvs))"
  using assms
proof (induction conds arbitrary: kvs cells items)
  case Nil
  show ?case by simp
next
  case (Cons cond conds)
  let ?items1 = "filter (\<lambda>c. eval_conditional cond c = Inr True) items"
  let ?kvs1 = "dict_set ''cells'' (JList ?items1) kvs"
  from Cons.prems have "filter_result (eval_conditional cond) items = Inr ?items1"
    by (intro filter_result_evaluate) simp
  with Cons.prems(1,2) have step: "apply_conditional cond (JDict kvs) = Inr (JDict ?kvs1)"
    by (simp add: apply_conditional_def)
  have "map_of ?kvs1 ''cells'' = Some (JList ?items1)" "py_iter (JList ?items1) = Inr ?items1"
    by (simp_all add: map_of_dict_set)
  moreover from Cons.prems(3)
  have "\<forall>c \<in> set ?items1. \<forall>cond \<in> set conds. \<exists>b. eval_conditional cond c = Inr b"
    by simp
  ultimately have rest: "apply_conditionals conds (JDict ?kvs1) =
           Inr (if conds = [] then JDict ?kvs1
                else JDict (dict_set ''cells'' (JList (filter (passes conds) ?items1)) ?kvs1))"
    by (rule Cons.IH)
  have "filter (passes conds) ?items1 = filter (passes (cond # conds)) items"
    by (auto simp: passes_Cons intro: filter_cong)
  moreover have "?items1 = filter (passes [cond]) items"
    by (rule filter_cong) (simp_all add: passes_def)
  ultimately show ?case
    using step rest by (simp add: dict_set_twice)
qed

lemma py_for_mut_Inl:
  "py_iter c = Inr items \<Longrightarrow> (py_for_mut body c = Inl e) = (map_result body items = Inl e)"
  by (cases c) (auto simp: ebind_eq_Inl)

lemma visit_cells_Inl:
  assumes "node_cells node = Inr items"
    and "\<forall>c \<in> set items. \<forall>cond \<in> set conds. \<exists>b. eval_conditional cond c = Inr b"
  shows "(visit_cells conds body node = Inl e) = (map_result body (filter (passes conds) items) = Inl e)"
proof -
  from assms(1) obtain kvs cells where
    node: "node = JDict kvs" and cells: "map_of kvs ''cells'' = Some cells" and
    it: "py_iter cells = Inr items"
    by (auto simp: node_cells_def ebind_eq_Inr py_getattr_eq_Inr)
  note filt = apply_conditionals_evaluate [OF cells it assms(2)]
  show ?thesis
  proof (cases "conds = []")
    case True
    with filt node cells it show ?thesis
      by (simp add: visit_cells_def passes_def py_for_mut_Inl [OF it] ebind_eq_Inl)
  next
    case False
    with filt node show ?thesis
      by (auto simp: visit_cells_def map_of_dict_set ebind_eq_Inl)
  qed
qed

lemma map_result_append_Inl:
  "(map_result f (xs @ ys) = Inl e) =
     (map_result f xs = Inl e \<or> (\<exists>xs'. map_result f xs = Inr xs') \<and> map_result f ys = Inl e)"
  by (induction xs) (auto simp: ebind_eq_Inl ebind_eq_Inr)

lemma sum_Inr_iff: "(\<exists>y. m = Inr y) = (\<forall>e. m \<noteq> Inl e)"
  by (cases m) simp_all

lemma worksheets_Inl:
  assumes "map_result node_cells wss = Inr alls"
    and "\<forall>c \<in> set (concat alls). \<forall>cond \<in> set conds. \<exists>b. eval_conditional cond c = Inr b"
  shows "(map_result (visit_cells conds body) wss = Inl e) =
           (map_result body (filter (passes conds) (concat alls)) = Inl e)"
  using assms
proof (induction wss arbitrary: alls)
  case Nil
  then show ?case by simp
next
  case (Cons ws wss)
  from Cons.prems(1) obtain items rest where
    items: "node_cells ws = Inr items" and rest: "map_result node_cells wss = Inr rest" and
    alls: "alls = items # rest"
    by (auto simp: ebind_eq_Inr)
  from Cons.prems(2) alls have
    h1: "\<forall>c \<in> set items. \<forall>cond \<in> set conds. \<exists>b. eval_conditional cond c = Inr b" and
    h2: "\<forall>c \<in> set (concat rest). \<forall>cond \<in> set conds. \<exists>b. eval_conditional cond c = Inr b"
    by auto
  have here: "(visit_cells conds body ws = Inl e') = (map_result body (filter (passes conds) items) = Inl e')" for e'
    using items h1 by (rule visit_cells_Inl)
  then have ok: "(\<exists>y. visit_cells conds body ws = Inr y) = (\<exists>ys. map_result body (filter (passes conds) items) = Inr ys)"
    by (simp add: sum_Inr_iff)
  have later: "(map_result (visit_cells conds body) wss = Inl e) =
           (map_result body (filter (passes conds) (concat rest)) = Inl e)"
    using rest h2 by (rule Cons.IH)
  have "(map_result (visit_cells conds body) (ws # wss) = Inl e) =
      (visit_cells conds body ws = Inl e \<or>
       (\<exists>y. visit_cells conds body ws = Inr y) \<and> map_result (visit_cells conds body) wss = Inl e)"
    using map_result_append_Inl [of "visit_cells conds body" "[ws]" wss e]
    by (cases "visit_cells conds body ws") simp_all
  also have "\<dots> = (map_result body (filter (passes conds) items) = Inl e \<or>
       (\<exists>ys. map_result body (filter (passes conds) items) = Inr ys) \<and>
       map_result body (filter (passes conds) (concat rest)) = Inl e)"
    by (simp only: here ok later)
  also have "\<dots> = (map_result body (filter (passes conds) (concat alls)) = Inl e)"
    by (simp add: alls map_result_append_Inl)
  finally show ?case .
qed

lemma for_cells_Inl:
  assumes "nb_cells nb = Inr all"
    and "\<forall>c \<in> set all. \<forall>cond \<in> set conds. \<exists>b. eval_conditional cond c = Inr b"
  shows "(for_cells nb conds body = Inl e) = (map_result body (filter (passes conds) all) = Inl e)"
proof -
  from assms(1) obtain nbformat legacy where
    v: "py_getattr nb ''nbformat'' = Inr nbformat" and legacy: "py_lt4 nbformat = Inr legacy"
    by (auto simp: nb_cells_def ebind_eq_Inr)
  show ?thesis
  proof (cases legacy)
    case False
    with assms(1) v legacy have "node_cells nb = Inr all"
      by (simp add: nb_cells_def)
    from visit_cells_Inl [OF this assms(2)] v legacy False show ?thesis
      by (simp add: for_cells_def)
  next
    case True
    with assms(1) v legacy obtain wss items alls where
      wss: "py_getattr nb ''worksheets'' = Inr wss" and it: "py_iter wss = Inr items" and
      alls: "map_result node_cells items = Inr alls" and all: "all = concat alls"
      by (auto simp: nb_cells_def ebind_eq_Inr)
    from wss obtain kvs where nb: "nb = JDict kvs"
      by (auto simp: py_getattr_eq_Inr)
    from worksheets_Inl [OF alls] assms(2) all
    have "(map_result (visit_cells conds body) items = Inl e) =
           (map_result body (filter (passes conds) all) = Inl e)"
      by simp
    with v legacy True wss nb show ?thesis
      by (simp add: for_cells_def py_for_mut_Inl [OF it] ebind_eq_Inl)
  qed
qed

lemma map_result_Inl_iff:
  "(map_result f xs = Inl e) =
     (\<exists>pre x post. xs = pre @ x # post \<and> f x = Inl e \<and> (\<forall>p \<in> set pre. \<exists>y. f p = Inr y))"
proof (induction xs)
  case Nil
  show ?case by simp
next
  case (Cons a xs)
  show ?case
  proof (cases "f a")
    case (Inl e')
    show ?thesis
    proof
      assume "map_result f (a # xs) = Inl e"
      with Inl have "f a = Inl e" by simp
      then have "a # xs = [] @ a # xs \<and> f a = Inl e \<and> (\<forall>p \<in> set []. \<exists>y. f p = Inr y)"
        by simp
      then show "\<exists>pre x post. a # xs = pre @ x # post \<and> f x = Inl e \<and> (\<forall>p \<in> set pre. \<exists>y. f p = Inr y)"
        by blast
    next
      assume "\<exists>pre x post. a # xs = pre @ x # post \<and> f x = Inl e \<and> (\<forall>p \<in> set pre. \<exists>y. f p = Inr y)"
      then obtain pre x post where
        p: "a # xs = pre @ x # post" "f x = Inl e" "\<forall>p \<in> set pre. \<exists>y. f p = Inr y"
        by blast
      show "map_result f (a # xs) = Inl e"
      proof (cases pre)
        case Nil
        with p show ?thesis by simp
      next
        case (Cons b pre')
        with p Inl show ?thesis by auto
      qed
    qed
  next
    case (Inr y)
    have "(map_result f (a # xs) = Inl e) = (map_result f xs = Inl e)"
      using Inr by (cases "map_result f xs") simp_all
    also have "\<dots> = (\<exists>pre x post. xs = pre @ x # post \<and> f x = Inl e \<and> (\<forall>p \<in> set pre. \<exists>y. f p = Inr y))"
      by (rule Cons.IH)
    also have "\<dots> = (\<exists>pre x post. a # xs = pre @ x # post \<and> f x = Inl e \<and> (\<forall>p \<in> set pre. \<exists>y. f p = Inr y))"
    proof
      assume "\<exists>pre x post. xs = pre @ x # post \<and> f x = Inl e \<and> (\<forall>p \<in> set pre. \<exists>y. f p = Inr y)"
      then obtain pre x post where
        "xs = pre @ x # post" "f x = Inl e" "\<forall>p \<in> set pre. \<exists>y. f p = Inr y"
        by blast
      with Inr have "a # xs = (a # pre) @ x # post \<and> f x = Inl e \<and> (\<forall>p \<in> set (a # pre). \<exists>y. f p = Inr y)"
        by simp
      then show "\<exists>pre x post. a # xs = pre @ x # post \<and> f x = Inl e \<and> (\<forall>p \<in> set pre. \<exists>y. f p = Inr y)"
        by blast
    next
      assume "\<exists>pre x post. a # xs = pre @ x # post \<and> f x = Inl e \<and> (\<forall>p \<in> set pre. \<exists>y. f p = Inr y)"
      then obtain pre x post where
        p: "a # xs = pre @ x # post" "f x = Inl e" "\<forall>p \<in> set pre. \<exists>y. f p = Inr y"
        by blast
      show "\<exists>pre x post. xs = pre @ x # post \<and> f x = Inl e \<and> (\<forall>p \<in> set pre. \<exists>y. f p = Inr y)"
      proof (cases pre)
        case Nil
        with p Inr show ?thesis by simp
      next
        case (Cons b pre')
        with p have "xs = pre' @ x # post" "\<forall>p \<in> set pre'. \<exists>y. f p = Inr y"
          by simp_all
        with p(2) show ?thesis by blast
      qed
    qed
    finally show ?thesis .
  qed
qed

lemma ebind_shape:
  "m \<noteq> Inl MetadataError \<Longrightarrow> (\<And>x. f x \<noteq> Inl MetadataError) \<Longrightarrow> ebind m f \<noteq> Inl MetadataError"
  by (cases m) simp_all

lemma py_in_shape [simp]: "py_in k x \<noteq> Inl MetadataError"
  by (cases x) simp_all

lemma py_getitem_shape [simp]: "py_getitem x k \<noteq> Inl MetadataError"
  by (cases x) (simp_all split: option.splits)

lemma py_setitem_shape [simp]: "py_setitem x k v \<noteq> Inl MetadataError"
  by (cases x) simp_all

lemma py_iter_shape [simp]: "py_iter x \<noteq> Inl MetadataError"
  by (cases x) simp_all

lemma map_result_shape:
  "(\<And>x. f x \<noteq> Inl MetadataError) \<Longrightarrow> map_result f xs \<noteq> Inl MetadataError"
  by (induction xs) (auto simp: ebind_eq_Inl)

lemma null_count_shape [simp]: "null_count x \<noteq> Inl MetadataError"
  by (auto simp: null_count_def ebind_eq_Inl split: if_splits)

lemma null_counts_shape [simp]: "py_for_mut null_count x \<noteq> Inl MetadataError"
  using map_result_shape [of null_count]
  by (cases x) (auto simp: ebind_eq_Inl)

lemma strip_outputs_shape [simp]: "strip_outputs args k cell \<noteq> Inl MetadataError"
  by (auto simp: strip_outputs_def ebind_eq_Inl split: if_splits)

lemma strip_cell_metadata_error:
  "(strip_cell args keep cell_keys c = Inl MetadataError) =
     (determine_keep_output c keep (strip_init_cells args) = Inl MetadataError)"
  by (auto simp: strip_cell_def ebind_eq_Inl split: if_splits)

lemma pop_metadata_total:
  "py_getattr nb ''metadata'' = Inr md \<Longrightarrow> \<exists>nb1. pop_metadata keys nb = Inr nb1"
proof (induction keys arbitrary: nb md)
  case Nil
  show ?case by simp
next
  case (Cons key keys)
  then obtain kvs where nb: "nb = JDict kvs" "map_of kvs ''metadata'' = Some md"
    by (auto simp: py_getattr_eq_Inr)
  let ?nb1 = "JDict (dict_set ''metadata'' (snd (pop_recursive md key JNull)) kvs)"
  have "py_getattr ?nb1 ''metadata'' = Inr (snd (pop_recursive md key JNull))"
    by (simp add: map_of_dict_set)
  from Cons.IH [OF this] nb Cons.prems show ?case
    by simp
qed

lemma valid_extra_key_prefix:
  "(\<not> invalid_extra_key key) = (\<exists>rest. key = ''cell.'' @ rest \<or> key = ''metadata.'' @ rest)"
proof -
  have split: "(CHR ''.'' \<in> set key \<and> key_head key = h) = (\<exists>rest. key = h @ CHR ''.'' # rest)"
    if "CHR ''.'' \<notin> set h" for h
  proof
    assume a: "CHR ''.'' \<in> set key \<and> key_head key = h"
    then have "dropWhile (\<lambda>c. c \<noteq> CHR ''.'') key \<noteq> []"
      by (auto simp: dropWhile_eq_Nil_conv)
    then obtain rest where "dropWhile (\<lambda>c. c \<noteq> CHR ''.'') key = CHR ''.'' # rest"
      using hd_dropWhile [of "\<lambda>c. c \<noteq> CHR ''.''" key]
      by (cases "dropWhile (\<lambda>c. c \<noteq> CHR ''.'') key") auto
    with a takeWhile_dropWhile_id [of "\<lambda>c. c \<noteq> CHR ''.''" key] show "\<exists>rest. key = h @ CHR ''.'' # rest"
      by (auto simp: key_head_def)
  next
    assume "\<exists>rest. key = h @ CHR ''.'' # rest"
    with that show "CHR ''.'' \<in> set key \<and> key_head key = h"
      by (auto simp: key_head_def takeWhile_append)
  qed
  from split [of "''cell''"] split [of "''metadata''"] show ?thesis
    by (auto simp: invalid_extra_key_def)
qed

lemma warnings_text:
  "map warning (filter invalid_extra_key keys) =
     map (\<lambda>key. ''Ignoring invalid extra key `'' @ key @ ''`'' @ [CHR 0x0A])
       (filter (\<lambda>key. \<not> (\<exists>rest. key = ''cell.'' @ rest \<or> key = ''metadata.'' @ rest)) keys)"
proof -
  have "invalid_extra_key = (\<lambda>key. \<not> (\<exists>rest. key = ''cell.'' @ rest \<or> key = ''metadata.'' @ rest))"
    using valid_extra_key_prefix by (intro ext) blast
  moreover have "char_of (10 :: nat) = CHR 0x0A"
    by code_simp
  then have "warning = (\<lambda>key. ''Ignoring invalid extra key `'' @ key @ ''`'' @ [CHR 0x0A])"
    by (intro ext) (simp add: warning_def)
  ultimately show ?thesis
    by (simp only:)
qed

lemma strip_output_metadata_error:
  assumes "effective_keep_output nb args = Inr keep"
    and "py_getattr nb ''metadata'' = Inr md"
    and "nb_cells nb = Inr all"
    and "\<forall>c \<in> set all. \<forall>cond \<in> set (conditionals args). \<exists>b. eval_conditional cond c = Inr b"
  shows "(snd (strip_output nb args) = Inl MetadataError) =
     (\<exists>pre c post. filter (passes (conditionals args)) all = pre @ c # post \<and>
        determine_keep_output c keep (strip_init_cells args) = Inl MetadataError \<and>
        (\<forall>p \<in> set pre. \<exists>y. strip_cell args keep (keys_for ''cell'' (extra_keys args)) p = Inr y))"
proof -
  from pop_metadata_total [OF assms(2)] obtain nb1 where
    nb1: "pop_metadata (keys_for ''metadata'' (extra_keys args)) nb = Inr nb1"
    by blast
  from pop_metadata_nb_cells [OF nb1] assms(3) have "nb_cells nb1 = Inr all"
    by simp
  from for_cells_Inl [OF this assms(4)] assms(1) nb1
  have "(snd (strip_output nb args) = Inl MetadataError) =
      (map_result (strip_cell args keep (keys_for ''cell'' (extra_keys args)))
         (filter (passes (conditionals args)) all) = Inl MetadataError)"
    by (simp add: strip_output_def)
  then show ?thesis
    by (simp add: map_result_Inl_iff strip_cell_metadata_error)
qed

section \<open>The key-path removal utility\<close>

text \<open>
  Claim C6. \<open>pop_recursive\<close> on a mapping first looks for the whole remaining path as one
  literal key and, when it is there, removes it and returns its value; otherwise it splits
  the path at the first dot and recurses into the value stored under the head segment,
  and it returns the default, leaving the mapping as it is, when the path has no dot,
  when the head segment is absent, or when the value under the head segment is not a
  mapping. On a value that is not a mapping it returns the default.
\<close>

theorem pop_recursive_precedence:
  "(map_of kvs key = Some v \<longrightarrow>
      pop_recursive (JDict kvs) key dflt = (v, JDict (dict_del key kvs))) \<and>
   (map_of kvs key = None \<and> CHR ''.'' \<in> set key \<and> map_of kvs (key_head key) = Some sub \<longrightarrow>
      pop_recursive (JDict kvs) key dflt =
        (fst (pop_recursive sub (key_tail key) dflt),
         JDict (dict_set (key_head key) (snd (pop_recursive sub (key_tail key) dflt)) kvs))) \<and>
   (map_of kvs key = None \<and> (CHR ''.'' \<notin> set key \<or> map_of kvs (key_head key) = None) \<longrightarrow>
      pop_recursive (JDict kvs) key dflt = (dflt, JDict kvs)) \<and>
   (map_of kvs key = None \<and> CHR ''.'' \<in> set key \<and> map_of kvs (key_head key) = Some sub \<and>
    (\<forall>kvs'. sub \<noteq> JDict kvs') \<longrightarrow>
      pop_recursive (JDict kvs) key dflt = (dflt, JDict kvs)) \<and>
   ((\<forall>kvs'. d \<noteq> JDict kvs') \<longrightarrow> pop_recursive d key dflt = (dflt, d))"
proof (intro conjI impI)
  assume "map_of kvs key = Some v"
  then show "pop_recursive (JDict kvs) key dflt = (v, JDict (dict_del key kvs))"
    by (rule pop_recursive_literal)
next
  assume "map_of kvs key = None \<and> CHR ''.'' \<in> set key \<and> map_of kvs (key_head key) = Some sub"
  then show "pop_recursive (JDict kvs) key dflt =
      (fst (pop_recursive sub (key_tail key) dflt),
       JDict (dict_set (key_head key) (snd (pop_recursive sub (key_tail key) dflt)) kvs))"
    by (simp add: pop_recursive_nested split: prod.splits)
next
  assume "map_of kvs key = None \<and> (CHR ''.'' \<notin> set key \<or> map_of kvs (key_head key) = None)"
  then show "pop_recursive (JDict kvs) key dflt = (dflt, JDict kvs)"
    by (simp add: pop_recursive_absent)
next
  assume a: "map_of kvs key = None \<and> CHR ''.'' \<in> set key \<and> map_of kvs (key_head key) = Some sub \<and>
    (\<forall>kvs'. sub \<noteq> JDict kvs')"
  then have "pop_recursive sub (key_tail key) dflt = (dflt, sub)"
    by (simp add: pop_recursive_not_dict)
  with a show "pop_recursive (JDict kvs) key dflt = (dflt, JDict kvs)"
    by (simp add: pop_recursive_nested dict_set_same)
next
  assume "\<forall>kvs'. d \<noteq> JDict kvs'"
  then show "pop_recursive d key dflt = (dflt, d)"
    by (rule pop_recursive_not_dict)
qed

text \<open>
  The theorem at the example of the claim: on \<open>{"a.b": 1, "a": {"b": 2}}\<close> the path
  \<open>a.b\<close> pops the literal key and leaves \<open>{"a": {"b": 2}}\<close>; a second call with the same
  path then takes the nested route; the path \<open>a.c\<close> and the path \<open>a.b.c\<close> through the
  number stored under \<open>a.b\<close> return the default.
\<close>

theorem pop_recursive_precedence_witness:
  "pop_recursive (JDict [(''a.b'', JInt 1), (''a'', JDict [(''b'', JInt 2)])]) ''a.b'' JNull =
     (JInt 1, JDict [(''a'', JDict [(''b'', JInt 2)])]) \<and>
   pop_recursive (JDict [(''a'', JDict [(''b'', JInt 2)])]) ''a.b'' JNull =
     (JInt 2, JDict [(''a'', JDict [])]) \<and>
   pop_recursive (JDict [(''a'', JDict [(''b'', JInt 2)])]) ''c.b'' JNull =
     (JNull, JDict [(''a'', JDict [(''b'', JInt 2)])]) \<and>
   pop_recursive (JDict [(''a'', JInt 2)]) ''a.b'' JNull = (JNull, JDict [(''a'', JInt 2)]) \<and>
   pop_recursive (JInt 2) ''a.b'' JNull = (JNull, JInt 2)"
proof -
  have "pop_recursive (JDict [(''a.b'', JInt 1), (''a'', JDict [(''b'', JInt 2)])]) ''a.b'' JNull =
      (JInt 1, JDict [(''a'', JDict [(''b'', JInt 2)])])"
    using pop_recursive_precedence
      [of "[(''a.b'', JInt 1), (''a'', JDict [(''b'', JInt 2)])]" "''a.b''" "JInt 1" JNull JNull JNull]
    by simp
  moreover have "pop_recursive (JDict [(''b'', JInt 2)]) ''b'' JNull = (JInt 2, JDict [])"
    using pop_recursive_precedence [of "[(''b'', JInt 2)]" "''b''" "JInt 2" JNull JNull JNull]
    by simp
  then have "pop_recursive (JDict [(''a'', JDict [(''b'', JInt 2)])]) ''a.b'' JNull =
      (JInt 2, JDict [(''a'', JDict [])])"
    using pop_recursive_precedence
      [of "[(''a'', JDict [(''b'', JInt 2)])]" "''a.b''" JNull JNull "JDict [(''b'', JInt 2)]" JNull]
    by (simp add: key_head_def key_tail_def)
  moreover have "pop_recursive (JDict [(''a'', JDict [(''b'', JInt 2)])]) ''c.b'' JNull =
      (JNull, JDict [(''a'', JDict [(''b'', JInt 2)])])"
    using pop_recursive_precedence
      [of "[(''a'', JDict [(''b'', JInt 2)])]" "''c.b''" JNull JNull JNull JNull]
    by (simp add: key_head_def)
  moreover have "pop_recursive (JDict [(''a'', JInt 2)]) ''a.b'' JNull = (JNull, JDict [(''a'', JInt 2)])"
    using pop_recursive_precedence [of "[(''a'', JInt 2)]" "''a.b''" JNull JNull "JInt 2" JNull]
      pop_recursive_precedence [of "[]" "''b''" JNull JNull JNull "JInt 2"]
    by (simp add: key_head_def key_tail_def)
  moreover have "pop_recursive (JInt 2) ''a.b'' JNull = (JNull, JInt 2)"
    using pop_recursive_precedence [of "[]" "''a.b''" JNull JNull JNull "JInt 2"]
    by simp
  ultimately show ?thesis
    by simp
qed

text \<open>
  Claim C10. \<open>pop_recursive\<close> is total and atomic on failure. It is a total function
  without an error result: every branch of the source returns, for a mapping and for any
  other value. When the path does not fully resolve it returns the default and the value
  as it was; this includes every argument that is not a mapping. When the path resolves,
  the value returned does not depend on the default, and the argument has changed.
\<close>

theorem pop_recursive_atomic:
  "(\<not> path_resolves d key \<longrightarrow> pop_recursive d key dflt = (dflt, d)) \<and>
   (path_resolves d key \<longrightarrow>
      (\<forall>dflt'. pop_recursive d key dflt' = pop_recursive d key dflt) \<and>
      snd (pop_recursive d key dflt) \<noteq> d) \<and>
   ((\<forall>kvs. d \<noteq> JDict kvs) \<longrightarrow> \<not> path_resolves d key)"
proof (intro conjI impI allI)
  assume "\<not> path_resolves d key"
  then show "pop_recursive d key dflt = (dflt, d)"
    by (rule pop_recursive_unresolved)
next
  fix dflt'
  assume "path_resolves d key"
  then show "pop_recursive d key dflt' = pop_recursive d key dflt"
    using pop_recursive_resolved [of d key dflt' dflt] by simp
next
  assume "path_resolves d key"
  then show "snd (pop_recursive d key dflt) \<noteq> d"
    using pop_recursive_resolved [of d key dflt dflt] by simp
next
  assume "\<forall>kvs. d \<noteq> JDict kvs"
  then show "\<not> path_resolves d key"
    by (cases d) (simp_all add: path_resolves.simps)
qed

theorem pop_recursive_atomic_witness:
  "\<not> path_resolves (JDict [(''a'', JDict [(''b'', JInt 2)]), (''c'', JInt 3)]) ''a.x'' \<and>
   pop_recursive (JDict [(''a'', JDict [(''b'', JInt 2)]), (''c'', JInt 3)]) ''a.x'' JNull =
     (JNull, JDict [(''a'', JDict [(''b'', JInt 2)]), (''c'', JInt 3)]) \<and>
   \<not> path_resolves (JDict [(''a'', JDict [(''b'', JInt 2)]), (''c'', JInt 3)]) ''c.b'' \<and>
   pop_recursive (JDict [(''a'', JDict [(''b'', JInt 2)]), (''c'', JInt 3)]) ''c.b'' JNull =
     (JNull, JDict [(''a'', JDict [(''b'', JInt 2)]), (''c'', JInt 3)]) \<and>
   path_resolves (JDict [(''a'', JDict [(''b'', JInt 2)]), (''c'', JInt 3)]) ''a.b'' \<and>
   snd (pop_recursive (JDict [(''a'', JDict [(''b'', JInt 2)]), (''c'', JInt 3)]) ''a.b'' JNull) \<noteq>
     JDict [(''a'', JDict [(''b'', JInt 2)]), (''c'', JInt 3)] \<and>
   \<not> path_resolves (JList [JStr ''a'']) ''a'' \<and>
   pop_recursive (JList [JStr ''a'']) ''a'' JNull = (JNull, JList [JStr ''a''])"
  using
    pop_recursive_atomic [of "JDict [(''a'', JDict [(''b'', JInt 2)]), (''c'', JInt 3)]" "''a.x''" JNull]
    pop_recursive_atomic [of "JDict [(''a'', JDict [(''b'', JInt 2)]), (''c'', JInt 3)]" "''c.b''" JNull]
    pop_recursive_atomic [of "JDict [(''a'', JDict [(''b'', JInt 2)]), (''c'', JInt 3)]" "''a.b''" JNull]
    pop_recursive_atomic [of "JList [JStr ''a'']" "''a''" JNull]
  by (simp add: path_resolves.simps key_head_def key_tail_def)

section \<open>The cell retention policy\<close>



text \<open>
  Claim C9. For every cell whose metadata contains an \<open>init_cell\<close> key,
  \<open>determine_keep_output\<close> never raises the contradiction error: the \<open>init_cell\<close> rule
  returns before the check. The metadata may be any value on which \<open>'init_cell' in\<close>
  holds.
\<close>

theorem init_cell_no_contradiction:
  assumes "py_getattr cell ''metadata'' = Inr md"
    and "py_in ''init_cell'' md = Inr True"
  shows "determine_keep_output cell dflt strip_init \<noteq> Inl MetadataError"
proof -
  from assms(1) obtain kvs where cell: "cell = JDict kvs" and md: "map_of kvs ''metadata'' = Some md"
    by (cases cell) (auto split: option.splits)
  have "determine_keep_output cell dflt strip_init =
      ebind (py_getattr md ''init_cell'') (\<lambda>init_cell. Inr (Some (py_bool init_cell \<and> \<not> strip_init)))"
    using cell md assms(2) by (simp add: determine_keep_output_def)
  then show ?thesis
    by (cases md) (auto split: option.splits)
qed

text \<open>A cell with \<open>init_cell\<close>, with \<open>keep_output\<close> false and with the tag
  \<open>keep_output\<close>: no contradiction error.\<close>

theorem init_cell_no_contradiction_witness:
  "py_getattr
     (JDict [(''metadata'', JDict [(''init_cell'', JBool False), (''keep_output'', JBool False),
        (''tags'', JList [JStr ''keep_output''])])]) ''metadata'' =
     Inr (JDict [(''init_cell'', JBool False), (''keep_output'', JBool False),
        (''tags'', JList [JStr ''keep_output''])]) \<and>
   py_in ''init_cell'' (JDict [(''init_cell'', JBool False), (''keep_output'', JBool False),
        (''tags'', JList [JStr ''keep_output''])]) = Inr True \<and>
   determine_keep_output
     (JDict [(''metadata'', JDict [(''init_cell'', JBool False), (''keep_output'', JBool False),
        (''tags'', JList [JStr ''keep_output''])])]) None False \<noteq> Inl MetadataError"
  using init_cell_no_contradiction
    [of "JDict [(''metadata'', JDict [(''init_cell'', JBool False), (''keep_output'', JBool False),
        (''tags'', JList [JStr ''keep_output''])])]"
      "JDict [(''init_cell'', JBool False), (''keep_output'', JBool False),
        (''tags'', JList [JStr ''keep_output''])]" None False]
  by simp

text \<open>
  Claim C4, as stated, fails for \<open>strip_output\<close>: the cell filters run before
  \<open>determine_keep_output\<close>, so a cell with the contradiction that a filter drops is never
  examined. The cell below has \<open>keep_output\<close> false and the tags \<open>keep_output\<close> and
  \<open>remove\<close>; \<open>determine_keep_output\<close> raises on it, and \<open>strip_output\<close> with
  \<open>drop_tagged_cells = ["remove"]\<close> returns the notebook without the cell.
\<close>

theorem contradiction_dropped_cell_counterexample:
  "determine_keep_output
     (code_cell [(''keep_output'', JBool False), (''tags'', JList [JStr ''keep_output'', JStr ''remove''])])
     None False = Inl MetadataError \<and>
   snd (strip_output
     (notebook []
        [code_cell [(''keep_output'', JBool False), (''tags'', JList [JStr ''keep_output'', JStr ''remove''])]])
     (default_args\<lparr>drop_tagged_cells := [''remove'']\<rparr>)) = Inr (notebook [] [])"
  by code_simp

text \<open>
  Claim C4, amended. On a cell (a mapping) whose metadata is a mapping,
  \<open>determine_keep_output\<close> raises \<open>MetadataError\<close> exactly when the metadata has no
  \<open>init_cell\<close> key, has a \<open>keep_output\<close> key whose value is false (as \<open>bool\<close> reads it) and
  \<open>keep_output\<close> is in the tags; in particular a true \<open>keep_output\<close> never raises. The loop
  body of \<open>strip_output\<close> passes the error on, and \<open>strip_output\<close> never returns a notebook
  when a cell that passes the filters has the contradiction. On a notebook with metadata
  whose cells can be listed and filtered, \<open>strip_output\<close> raises \<open>MetadataError\<close> exactly
  when, among the cells that pass the filters, the first one on which the loop body fails
  is a cell on which \<open>determine_keep_output\<close> raises it.
\<close>

theorem contradiction_detection:
  "(map_of cell ''metadata'' = Some (JDict md) \<longrightarrow>
      (determine_keep_output (JDict cell) dflt strip_init = Inl MetadataError) =
        (map_of md ''init_cell'' = None \<and>
         (\<exists>v. map_of md ''keep_output'' = Some v \<and> \<not> py_bool v) \<and>
         py_in ''keep_output'' (case map_of md ''tags'' of Some tags \<Rightarrow> tags | None \<Rightarrow> JList []) = Inr True)) \<and>
   (determine_keep_output c keep (strip_init_cells args) = Inl MetadataError \<longrightarrow>
      strip_cell args keep cell_keys c = Inl MetadataError) \<and>
   (snd (strip_output nb args) = Inr nb' \<longrightarrow>
      (\<exists>keep all. effective_keep_output nb args = Inr keep \<and> nb_cells nb = Inr all \<and>
         (\<forall>c \<in> set all. passes (conditionals args) c \<longrightarrow>
            determine_keep_output c keep (strip_init_cells args) \<noteq> Inl MetadataError))) \<and>
   (effective_keep_output nb args = Inr keep' \<and> py_getattr nb ''metadata'' = Inr nb_md \<and>
    nb_cells nb = Inr cells \<and>
    (\<forall>c \<in> set cells. \<forall>cond \<in> set (conditionals args). \<exists>b. eval_conditional cond c = Inr b) \<longrightarrow>
      (snd (strip_output nb args) = Inl MetadataError) =
        (\<exists>pre c post. filter (passes (conditionals args)) cells = pre @ c # post \<and>
           determine_keep_output c keep' (strip_init_cells args) = Inl MetadataError \<and>
           (\<forall>p \<in> set pre. \<exists>y. strip_cell args keep' (keys_for ''cell'' (extra_keys args)) p = Inr y)))"
proof (intro conjI impI)
  assume "map_of cell ''metadata'' = Some (JDict md)"
  then show "(determine_keep_output (JDict cell) dflt strip_init = Inl MetadataError) =
        (map_of md ''init_cell'' = None \<and>
         (\<exists>v. map_of md ''keep_output'' = Some v \<and> \<not> py_bool v) \<and>
         py_in ''keep_output'' (case map_of md ''tags'' of Some tags \<Rightarrow> tags | None \<Rightarrow> JList []) = Inr True)"
    by (cases "py_in ''keep_output'' (case map_of md ''tags'' of Some tags \<Rightarrow> tags | None \<Rightarrow> JList [])")
      (auto simp: determine_keep_output_def split: option.splits dest: py_in_error)
next
  assume "determine_keep_output c keep (strip_init_cells args) = Inl MetadataError"
  then show "strip_cell args keep cell_keys c = Inl MetadataError"
    by (simp add: strip_cell_def)
next
  assume "snd (strip_output nb args) = Inr nb'"
  from strip_output_success [OF this] obtain keep all cs' where
    keep: "effective_keep_output nb args = Inr keep" and all: "nb_cells nb = Inr all" and
    loop: "map_result (strip_cell args keep (keys_for ''cell'' (extra_keys args)))
             (filter (passes (conditionals args)) all) = Inr cs'"
    by blast
  have "determine_keep_output c keep (strip_init_cells args) \<noteq> Inl MetadataError"
    if "c \<in> set all" "passes (conditionals args) c" for c
  proof -
    from map_result_Inr_all [OF loop, of c] that
    obtain y where "strip_cell args keep (keys_for ''cell'' (extra_keys args)) c = Inr y"
      by auto
    then show ?thesis
      by (auto simp: strip_cell_def ebind_eq_Inr)
  qed
  with keep all show "\<exists>keep all. effective_keep_output nb args = Inr keep \<and> nb_cells nb = Inr all \<and>
         (\<forall>c \<in> set all. passes (conditionals args) c \<longrightarrow>
            determine_keep_output c keep (strip_init_cells args) \<noteq> Inl MetadataError)"
    by blast
next
  assume "effective_keep_output nb args = Inr keep' \<and> py_getattr nb ''metadata'' = Inr nb_md \<and>
    nb_cells nb = Inr cells \<and>
    (\<forall>c \<in> set cells. \<forall>cond \<in> set (conditionals args). \<exists>b. eval_conditional cond c = Inr b)"
  then show "(snd (strip_output nb args) = Inl MetadataError) =
        (\<exists>pre c post. filter (passes (conditionals args)) cells = pre @ c # post \<and>
           determine_keep_output c keep' (strip_init_cells args) = Inl MetadataError \<and>
           (\<forall>p \<in> set pre. \<exists>y. strip_cell args keep' (keys_for ''cell'' (extra_keys args)) p = Inr y))"
    by (intro strip_output_metadata_error) simp_all
qed

text \<open>
  The theorem at a cell with \<open>keep_output\<close> false and the tag (the error), at a cell with
  \<open>keep_output\<close> true and the tag (output kept), at a notebook that strips without
  error, and at a notebook whose second cell has the contradiction: \<open>strip_output\<close>
  returns the error.
\<close>

theorem contradiction_detection_witness:
  "determine_keep_output
     (code_cell [(''keep_output'', JBool False), (''tags'', JList [JStr ''keep_output''])])
     None False = Inl MetadataError \<and>
   determine_keep_output
     (code_cell [(''keep_output'', JBool True), (''tags'', JList [JStr ''keep_output''])])
     None False = Inr (Some True) \<and>
   strip_cell default_args None []
     (code_cell [(''keep_output'', JBool False), (''tags'', JList [JStr ''keep_output''])]) =
     Inl MetadataError \<and>
   snd (strip_output
     (notebook [] [code_cell [], code_cell [(''keep_output'', JBool False), (''tags'', JList [JStr ''keep_output''])]])
     default_args) = Inl MetadataError \<and>
   snd (strip_output
     (notebook [] [code_cell [(''keep_output'', JBool True), (''tags'', JList [JStr ''keep_output''])]])
     default_args) =
     Inr (notebook [] [code_cell [(''keep_output'', JBool True), (''tags'', JList [JStr ''keep_output''])]]) \<and>
   (\<exists>keep all.
      effective_keep_output
        (notebook [] [code_cell [(''keep_output'', JBool True), (''tags'', JList [JStr ''keep_output''])]])
        default_args = Inr keep \<and>
      nb_cells
        (notebook [] [code_cell [(''keep_output'', JBool True), (''tags'', JList [JStr ''keep_output''])]]) =
        Inr all \<and>
      (\<forall>c \<in> set all. passes (conditionals default_args) c \<longrightarrow>
         determine_keep_output c keep (strip_init_cells default_args) \<noteq> Inl MetadataError)) \<and>
   (\<exists>pre c post.
      filter (passes (conditionals default_args))
        [code_cell [], code_cell [(''keep_output'', JBool False), (''tags'', JList [JStr ''keep_output''])]] =
        pre @ c # post \<and>
      determine_keep_output c None (strip_init_cells default_args) = Inl MetadataError \<and>
      (\<forall>p \<in> set pre. \<exists>y.
         strip_cell default_args None (keys_for ''cell'' (extra_keys default_args)) p = Inr y))"
proof -
  let ?mdF = "[(''keep_output'', JBool False), (''tags'', JList [JStr ''keep_output''])]"
  let ?mdT = "[(''keep_output'', JBool True), (''tags'', JList [JStr ''keep_output''])]"
  let ?cellF = "[(''cell_type'', JStr ''code''), (''metadata'', JDict ?mdF), (''source'', JList [JStr ''1+1'']),
            (''outputs'', JList []), (''execution_count'', JNull)]"
  let ?cellT = "[(''cell_type'', JStr ''code''), (''metadata'', JDict ?mdT), (''source'', JList [JStr ''1+1'']),
            (''outputs'', JList []), (''execution_count'', JNull)]"
  have ok: "snd (strip_output (notebook [] [code_cell ?mdT]) default_args) = Inr (notebook [] [code_cell ?mdT])"
    by code_simp
  have raised: "snd (strip_output (notebook [] [code_cell [], code_cell ?mdF]) default_args) = Inl MetadataError"
    by code_simp
  have noerr: "determine_keep_output (JDict ?cellT) None False = Inr (Some True)"
    by (simp add: determine_keep_output_def)
  note F = contradiction_detection [of ?cellF ?mdF None False "JDict ?cellF" None default_args "[]"
      "notebook [] [code_cell ?mdT]" "notebook [] [code_cell ?mdT]" None "JDict []" "[code_cell ?mdT]"]
  note G = contradiction_detection [of ?cellF ?mdF None False "JDict ?cellF" None default_args "[]"
      "notebook [] [code_cell [], code_cell ?mdF]" "notebook [] []" None "JDict []"
      "[code_cell [], code_cell ?mdF]"]
  have h1: "effective_keep_output (notebook [] [code_cell [], code_cell ?mdF]) default_args = Inr None"
    by code_simp
  have h2: "py_getattr (notebook [] [code_cell [], code_cell ?mdF]) ''metadata'' = Inr (JDict [])"
    by (simp add: notebook_def)
  have h3: "nb_cells (notebook [] [code_cell [], code_cell ?mdF]) = Inr [code_cell [], code_cell ?mdF]"
    by code_simp
  have h4: "\<forall>c \<in> set [code_cell [], code_cell ?mdF]. \<forall>cond \<in> set (conditionals default_args).
      \<exists>b. eval_conditional cond c = Inr b"
    by (simp add: conditionals_def default_args_def)
  from G [THEN conjunct2, THEN conjunct2, THEN conjunct2] h1 h2 h3 h4
  have "(snd (strip_output (notebook [] [code_cell [], code_cell ?mdF]) default_args) = Inl MetadataError) =
      (\<exists>pre c post.
         filter (passes (conditionals default_args)) [code_cell [], code_cell ?mdF] = pre @ c # post \<and>
         determine_keep_output c None (strip_init_cells default_args) = Inl MetadataError \<and>
         (\<forall>p \<in> set pre. \<exists>y.
            strip_cell default_args None (keys_for ''cell'' (extra_keys default_args)) p = Inr y))"
    by blast
  with raised have first: "\<exists>pre c post.
         filter (passes (conditionals default_args)) [code_cell [], code_cell ?mdF] = pre @ c # post \<and>
         determine_keep_output c None (strip_init_cells default_args) = Inl MetadataError \<and>
         (\<forall>p \<in> set pre. \<exists>y.
            strip_cell default_args None (keys_for ''cell'' (extra_keys default_args)) p = Inr y)"
    by simp
  from F have "determine_keep_output (JDict ?cellF) None False = Inl MetadataError"
    by simp
  moreover from this F have "strip_cell default_args None [] (JDict ?cellF) = Inl MetadataError"
    by (simp add: default_args_def)
  moreover from F ok have "\<exists>keep all.
      effective_keep_output (notebook [] [code_cell ?mdT]) default_args = Inr keep \<and>
      nb_cells (notebook [] [code_cell ?mdT]) = Inr all \<and>
      (\<forall>c \<in> set all. passes (conditionals default_args) c \<longrightarrow>
         determine_keep_output c keep (strip_init_cells default_args) \<noteq> Inl MetadataError)"
    by blast
  ultimately have "determine_keep_output (JDict ?cellF) None False = Inl MetadataError \<and>
      strip_cell default_args None [] (JDict ?cellF) = Inl MetadataError \<and>
      (\<exists>keep all.
        effective_keep_output (notebook [] [code_cell ?mdT]) default_args = Inr keep \<and>
        nb_cells (notebook [] [code_cell ?mdT]) = Inr all \<and>
        (\<forall>c \<in> set all. passes (conditionals default_args) c \<longrightarrow>
           determine_keep_output c keep (strip_init_cells default_args) \<noteq> Inl MetadataError))"
    by blast
  with ok raised noerr first show ?thesis
    unfolding code_cell_def [of ?mdF] code_cell_def [of ?mdT] by blast
qed

section \<open>Extra keys\<close>

text \<open>
  Claim C8. An extra key without a dot, or whose first segment is neither \<open>cell\<close> nor
  \<open>metadata\<close>, is skipped: the notebook returned (or the exception raised) is the one of the
  call without these keys, so such a key neither fails the call nor removes anything, and
  the other keys are processed as usual. One warning per such key is written to the error
  stream, in the order of \<open>extra_keys\<close>, once the call has got past the lookup of the
  notebook's \<open>keep_output\<close> (which precedes the loop over the keys), and nothing else is
  written: the text is \<^verbatim>\<open>Ignoring invalid extra key `\<close>, the key, a backquote and the
  newline of \<open>print\<close>, and the keys warned about are those that do not start with
  \<open>cell.\<close> or \<open>metadata.\<close>.
\<close>

theorem invalid_extra_keys_skipped:
  "snd (strip_output nb args) =
     snd (strip_output nb (args\<lparr>extra_keys := filter (\<lambda>key. \<not> invalid_extra_key key) (extra_keys args)\<rparr>)) \<and>
   (\<forall>keep. effective_keep_output nb args = Inr keep \<longrightarrow>
      fst (strip_output nb args) = map warning (filter invalid_extra_key (extra_keys args))) \<and>
   (\<forall>keep. effective_keep_output nb args = Inr keep \<longrightarrow>
      fst (strip_output nb args) =
        map (\<lambda>key. ''Ignoring invalid extra key `'' @ key @ ''`'' @ [CHR 0x0A])
          (filter (\<lambda>key. \<not> (\<exists>rest. key = ''cell.'' @ rest \<or> key = ''metadata.'' @ rest))
             (extra_keys args)))"
proof -
  have result: "snd (strip_output nb args) =
     snd (strip_output nb (args\<lparr>extra_keys := filter (\<lambda>key. \<not> invalid_extra_key key) (extra_keys args)\<rparr>))"
    by (cases "effective_keep_output nb args")
      (simp_all add: strip_output_def effective_keep_output_def conditionals_def keys_for_valid
        strip_cell_extra_keys)
  have written: "fst (strip_output nb args) = map warning (filter invalid_extra_key (extra_keys args))"
    if "effective_keep_output nb args = Inr keep" for keep
    using that by (simp add: strip_output_def)
  from result written written [unfolded warnings_text] show ?thesis
    by blast
qed

text \<open>The theorem at a notebook stripped with the extra keys \<open>foo\<close>, \<open>x.y\<close>,
  \<open>metadata.a\<close> and \<open>cellx.b\<close>: three warnings, and the result of the one valid key.\<close>

theorem invalid_extra_keys_skipped_witness:
  "effective_keep_output (notebook [(''a'', JInt 1), (''foo'', JInt 2)] [code_cell []])
     (default_args\<lparr>extra_keys := [''foo'', ''x.y'', ''metadata.a'', ''cellx.b'']\<rparr>) = Inr None \<and>
   strip_output (notebook [(''a'', JInt 1), (''foo'', JInt 2)] [code_cell []])
     (default_args\<lparr>extra_keys := [''foo'', ''x.y'', ''metadata.a'', ''cellx.b'']\<rparr>) =
     ([''Ignoring invalid extra key `foo`'' @ [CHR 0x0A],
       ''Ignoring invalid extra key `x.y`'' @ [CHR 0x0A],
       ''Ignoring invalid extra key `cellx.b`'' @ [CHR 0x0A]],
      snd (strip_output (notebook [(''a'', JInt 1), (''foo'', JInt 2)] [code_cell []])
        (default_args\<lparr>extra_keys := [''metadata.a'']\<rparr>))) \<and>
   snd (strip_output (notebook [(''a'', JInt 1), (''foo'', JInt 2)] [code_cell []])
        (default_args\<lparr>extra_keys := [''metadata.a'']\<rparr>)) =
     Inr (notebook [(''foo'', JInt 2)] [code_cell []])"
proof -
  let ?nb = "notebook [(''a'', JInt 1), (''foo'', JInt 2)] [code_cell []]"
  let ?args = "default_args\<lparr>extra_keys := [''foo'', ''x.y'', ''metadata.a'', ''cellx.b'']\<rparr>"
  let ?invalid = "\<lambda>key. \<not> (\<exists>rest. key = ''cell.'' @ rest \<or> key = ''metadata.'' @ rest)"
  have keep: "effective_keep_output ?nb ?args = Inr None"
    by code_simp
  have valid: "filter (\<lambda>key. \<not> invalid_extra_key key) (extra_keys ?args) = [''metadata.a'']"
    by code_simp
  have "filter invalid_extra_key (extra_keys ?args) = [''foo'', ''x.y'', ''cellx.b'']"
    by code_simp
  moreover have "invalid_extra_key = ?invalid"
    using valid_extra_key_prefix by (intro ext) blast
  ultimately have invalid: "filter ?invalid (extra_keys ?args) = [''foo'', ''x.y'', ''cellx.b'']"
    by (simp only:)
  have result: "snd (strip_output ?nb (default_args\<lparr>extra_keys := [''metadata.a'']\<rparr>)) =
      Inr (notebook [(''foo'', JInt 2)] [code_cell []])"
    by code_simp
  note skipped = invalid_extra_keys_skipped [of ?nb ?args]
  from skipped have "snd (strip_output ?nb ?args) =
      snd (strip_output ?nb (default_args\<lparr>extra_keys := [''metadata.a'']\<rparr>))"
    unfolding valid by (simp add: default_args_def)
  moreover from skipped [THEN conjunct2, THEN conjunct2, rule_format, OF keep]
  have "fst (strip_output ?nb ?args) =
      [''Ignoring invalid extra key `foo`'' @ [CHR 0x0A],
       ''Ignoring invalid extra key `x.y`'' @ [CHR 0x0A],
       ''Ignoring invalid extra key `cellx.b`'' @ [CHR 0x0A]]"
    unfolding invalid by simp
  ultimately have "strip_output ?nb ?args =
      ([''Ignoring invalid extra key `foo`'' @ [CHR 0x0A],
        ''Ignoring invalid extra key `x.y`'' @ [CHR 0x0A],
        ''Ignoring invalid extra key `cellx.b`'' @ [CHR 0x0A]],
       snd (strip_output ?nb (default_args\<lparr>extra_keys := [''metadata.a'']\<rparr>)))"
    by (simp only: prod_eq_iff fst_conv snd_conv simp_thms)
  with keep result show ?thesis
    by (simp only: simp_thms)
qed

section \<open>Outputs and counters\<close>

text \<open>
  The size filter. When the decision for a cell is to strip its outputs, and no extra key
  \<open>cell.outputs\<close> removes the field itself, the outputs of the stripped cell are exactly
  the outputs whose computed size is at most \<open>max_size\<close>, in their order (each with its
  \<open>execution_count\<close> set to null unless \<open>keep_count\<close>). With \<open>max_size = 0\<close> these are
  the outputs of computed size 0.
\<close>

lemma size_filter:
  assumes "strip_cell args keep cell_keys (JDict c) = Inr cell'"
    and "determine_keep_output (JDict c) keep (strip_init_cells args) = Inr k"
    and "k \<noteq> Some True"
    and "map_of c ''outputs'' = Some (JList outs)"
    and "''outputs'' \<notin> set cell_keys"
  shows "\<exists>outs'. field cell' ''outputs'' = Some (JList outs') \<and>
           map_result (if keep_count args then Inr else null_count)
             (filter (\<lambda>output. get_size output \<le> max_size args) outs) = Inr outs' \<and>
           (max_size args = 0 \<longrightarrow>
              filter (\<lambda>output. get_size output \<le> max_size args) outs =
              filter (\<lambda>output. get_size output = 0) outs)"
proof -
  let ?kept = "filter (\<lambda>output. get_size output \<le> max_size args) outs"
  from strip_cell_result [OF assms(1)] assms(2,4) obtain c1 where
    c1: "strip_outputs args k (JDict c) = Inr (JDict c1)" and
    cell': "cell' = pop_fields cell_keys
                  (JDict (if keep_count args then c1
                          else null_field ''execution_count'' (null_field ''prompt_number'' c1)))"
    by auto
  from strip_outputs_result [OF c1 assms(4)] assms(3) obtain outs2 where
    outs2: "if keep_count args then outs2 = JList ?kept else py_for_mut null_count (JList ?kept) = Inr outs2"
    and c1': "c1 = dict_set ''outputs'' outs2 c"
    by auto
  from outs2 obtain outs' where outs': "outs2 = JList outs'"
    "map_result (if keep_count args then Inr else null_count) ?kept = Inr outs'"
  proof (cases "keep_count args")
    case True
    have "map_result Inr ?kept = Inr ?kept"
      by (simp add: map_result_eq_Inr list_all2_same)
    with True outs2 that show ?thesis by simp
  next
    case False
    with outs2 that show ?thesis by (auto simp: ebind_eq_Inr)
  qed
  have "map_of (if keep_count args then c1
                else null_field ''execution_count'' (null_field ''prompt_number'' c1)) ''outputs'' =
        Some (JList outs')"
    using c1' outs'(1) by (simp add: null_field_other map_of_dict_set)
  from pop_fields_keeps [OF assms(5) this] cell'
  have "field cell' ''outputs'' = Some (JList outs')"
    by auto
  moreover have "?kept = filter (\<lambda>output. get_size output = 0) outs" if "max_size args = 0"
  proof -
    have "(get_size x \<le> 0) = (get_size x = 0)" for x
      using get_size_nonneg [of x] by linarith
    with that show ?thesis by simp
  qed
  ultimately show ?thesis
    using outs'(2) by blast
qed

text \<open>The lemma at the cell of the end-to-end example, whose output has size 2, with
  \<open>max_size = 2\<close>: the output is kept, with its \<open>execution_count\<close> null.\<close>

lemma size_filter_example:
  "strip_cell (default_args\<lparr>max_size := 2\<rparr>) None [] executed_cell =
     Inr (JDict [(''source'', JList [JStr ''1+1'']),
       (''outputs'', JList [JDict [(''execution_count'', JNull),
                                   (''data'', JDict [(''text/plain'', JStr ''2'')])]]),
       (''execution_count'', JNull)]) \<and>
   determine_keep_output executed_cell None (strip_init_cells (default_args\<lparr>max_size := 2\<rparr>)) = Inr None \<and>
   (\<exists>outs'.
      field (JDict [(''source'', JList [JStr ''1+1'']),
       (''outputs'', JList [JDict [(''execution_count'', JNull),
                                   (''data'', JDict [(''text/plain'', JStr ''2'')])]]),
       (''execution_count'', JNull)]) ''outputs'' = Some (JList outs') \<and>
      map_result (if keep_count (default_args\<lparr>max_size := 2\<rparr>) then Inr else null_count)
        (filter (\<lambda>output. get_size output \<le> max_size (default_args\<lparr>max_size := 2\<rparr>))
           [JDict [(''execution_count'', JInt 3), (''data'', JDict [(''text/plain'', JStr ''2'')])]]) =
        Inr outs' \<and>
      (max_size (default_args\<lparr>max_size := 2\<rparr>) = 0 \<longrightarrow>
         filter (\<lambda>output. get_size output \<le> max_size (default_args\<lparr>max_size := 2\<rparr>))
           [JDict [(''execution_count'', JInt 3), (''data'', JDict [(''text/plain'', JStr ''2'')])]] =
         filter (\<lambda>output. get_size output = 0)
           [JDict [(''execution_count'', JInt 3), (''data'', JDict [(''text/plain'', JStr ''2'')])]]))"
proof -
  let ?out = "JDict [(''execution_count'', JInt 3), (''data'', JDict [(''text/plain'', JStr ''2'')])]"
  let ?c = "[(''source'', JList [JStr ''1+1'']), (''outputs'', JList [?out]), (''execution_count'', JInt 3)]"
  let ?kept = "JDict [(''source'', JList [JStr ''1+1'']),
       (''outputs'', JList [JDict [(''execution_count'', JNull),
                                   (''data'', JDict [(''text/plain'', JStr ''2'')])]]),
       (''execution_count'', JNull)]"
  let ?args = "default_args\<lparr>max_size := 2\<rparr>"
  have run: "strip_cell ?args None [] (JDict ?c) = Inr ?kept"
    by code_simp
  have decide: "determine_keep_output (JDict ?c) None (strip_init_cells ?args) = Inr None"
    by (simp add: determine_keep_output_def)
  have "None \<noteq> Some True" "map_of ?c ''outputs'' = Some (JList [?out])" "''outputs'' \<notin> set []"
    by simp_all
  from size_filter [OF run decide this] run decide show ?thesis
    unfolding executed_cell_def by blast
qed

text \<open>
  Claim C2. An output of a cell whose outputs are stripped is retained if and only if its
  computed size is at most \<open>max_size\<close>, and with \<open>max_size = 0\<close>, the default, no output
  survives. The first half is \<open>size_filter\<close> above. The second half is what the comment
  above the filter says (\<^verbatim>\<open>Default behavior (max_size == 0) strips all outputs\<close>) and what
  the help of \<open>--max-size\<close> says (\<^verbatim>\<open>Keep outputs smaller than SIZE\<close>), but the test is
  \<open>get_size(output) <= args.max_size\<close>, so an output of computed size 0 survives. The
  notebook below has one cell with the output \<open>{"data": {}, "metadata": {}}\<close>; the
  default arguments leave it in place.
\<close>

theorem max_size_zero_keeps_empty_output:
  "max_size default_args = 0 \<and>
   get_size (JDict [(''data'', JDict []), (''metadata'', JDict [])]) = 0 \<and>
   snd (strip_output
     (notebook [] [JDict [(''source'', JList [JStr ''1+1'']),
        (''outputs'', JList [JDict [(''data'', JDict []), (''metadata'', JDict [])]])]])
     default_args) =
   Inr (notebook [] [JDict [(''source'', JList [JStr ''1+1'']),
        (''outputs'', JList [JDict [(''data'', JDict []), (''metadata'', JDict [])]])]])"
  by code_simp

text \<open>
  Claim C7, as stated, fails in its second half: with \<open>keep_count\<close> an extra key can
  still remove a counter. Here \<open>cell.execution_count\<close> removes the execution count 3 of
  the cell.
\<close>

theorem counts_kept_counterexample:
  "keep_count (default_args\<lparr>keep_output := Some True, keep_count := True,
       extra_keys := [''cell.execution_count'']\<rparr>) \<and>
   field executed_cell ''execution_count'' = Some (JInt 3) \<and>
   snd (strip_output (notebook [] [executed_cell])
     (default_args\<lparr>keep_output := Some True, keep_count := True,
       extra_keys := [''cell.execution_count'']\<rparr>)) =
   Inr (notebook [] [JDict [(''source'', JList [JStr ''1+1'']),
            (''outputs'', JList [JDict [(''execution_count'', JInt 3),
                                        (''data'', JDict [(''text/plain'', JStr ''2'')])]])]])"
  by code_simp

text \<open>
  Claim C7, amended. After a successful \<open>strip_output\<close> the cells of the notebook are the
  stripped cells that passed the filters, in their order. Without \<open>keep_count\<close>, every
  one of them has \<open>prompt_number\<close> and \<open>execution_count\<close> null where present, and so has
  every output in its list of outputs. With \<open>keep_count\<close>, no counter is altered: a
  counter of the cell keeps its value, and stays absent when it was absent, unless an
  extra key names the field (\<open>cell.execution_count\<close> removes it, and a nested path such as
  \<open>cell.execution_count.a\<close> can only remove entries of a counter that is a mapping), and
  under the same proviso the list of outputs is the original one, or the original outputs
  within \<open>max_size\<close>, each of them unchanged.
\<close>

theorem counts_after_strip:
  assumes "snd (strip_output nb args) = Inr nb'"
  shows "\<exists>all cs'. nb_cells nb = Inr all \<and> nb_cells nb' = Inr cs' \<and>
           list_all2
             (\<lambda>c c'. if keep_count args
                      then counts_kept args (keys_for ''cell'' (extra_keys args)) c c'
                      else counts_null c')
             (filter (passes (conditionals args)) all) cs'"
proof -
  from strip_output_success [OF assms] obtain keep all cs' where
    all: "nb_cells nb = Inr all" and
    loop: "map_result (strip_cell args keep (keys_for ''cell'' (extra_keys args)))
             (filter (passes (conditionals args)) all) = Inr cs'" and
    cs': "nb_cells nb' = Inr cs'"
    by blast
  from loop have "list_all2 (\<lambda>c c'. strip_cell args keep (keys_for ''cell'' (extra_keys args)) c = Inr c')
      (filter (passes (conditionals args)) all) cs'"
    by (simp add: map_result_eq_Inr)
  then have "list_all2
      (\<lambda>c c'. if keep_count args
               then counts_kept args (keys_for ''cell'' (extra_keys args)) c c'
               else counts_null c')
      (filter (passes (conditionals args)) all) cs'"
    by (rule list_all2_mono) (rule strip_cell_counts)
  with all cs' show ?thesis by blast
qed

text \<open>The theorem at the end-to-end example of the specification, stripped with the
  default arguments (the counters become null), and stripped with \<open>keep_output\<close>,
  \<open>keep_count\<close> and the extra key \<open>cell.metadata.collapsed\<close>: the execution count 3 of
  the cell and its list of outputs are those of the input.\<close>

theorem counts_after_strip_witness:
  "snd (strip_output (notebook [] [executed_cell]) default_args) =
     Inr (notebook [] [JDict [(''source'', JList [JStr ''1+1'']), (''outputs'', JList []),
                              (''execution_count'', JNull)]]) \<and>
   counts_null (JDict [(''source'', JList [JStr ''1+1'']), (''outputs'', JList []),
                       (''execution_count'', JNull)]) \<and>
   snd (strip_output (notebook [] [executed_cell])
     (default_args\<lparr>keep_output := Some True, keep_count := True,
        extra_keys := [''cell.metadata.collapsed'']\<rparr>)) =
     Inr (notebook [] [executed_cell]) \<and>
   counts_kept
     (default_args\<lparr>keep_output := Some True, keep_count := True,
        extra_keys := [''cell.metadata.collapsed'']\<rparr>)
     [''metadata.collapsed''] executed_cell executed_cell \<and>
   kept_value [''metadata.collapsed''] ''execution_count''
     (field executed_cell ''execution_count'') (Some (JInt 3))"
proof -
  let ?nb = "notebook [] [executed_cell]"
  let ?c' = "JDict [(''source'', JList [JStr ''1+1'']), (''outputs'', JList []),
                    (''execution_count'', JNull)]"
  let ?args = "default_args\<lparr>keep_output := Some True, keep_count := True,
                 extra_keys := [''cell.metadata.collapsed'']\<rparr>"
  have run: "snd (strip_output ?nb default_args) = Inr (notebook [] [?c'])"
    by code_simp
  have run': "snd (strip_output ?nb ?args) = Inr ?nb"
    by code_simp
  have cells: "nb_cells ?nb = Inr [executed_cell]" "nb_cells (notebook [] [?c']) = Inr [?c']"
    by code_simp+
  have pass: "filter (passes (conditionals default_args)) [executed_cell] = [executed_cell]"
    "filter (passes (conditionals ?args)) [executed_cell] = [executed_cell]"
    by code_simp+
  have args: "keep_count default_args = False" "keep_count ?args = True"
    "keys_for ''cell'' (extra_keys ?args) = [''metadata.collapsed'']"
    by code_simp+
  have fields: "field executed_cell ''execution_count'' = Some (JInt 3)"
    by code_simp
  from counts_after_strip [OF run] cells pass(1) args(1)
  have null: "counts_null ?c'"
    by auto
  from counts_after_strip [OF run'] cells(1) pass(2) args(2,3)
  have kept: "counts_kept ?args [''metadata.collapsed''] executed_cell executed_cell"
    by auto
  from kept have "kept_value [''metadata.collapsed''] ''execution_count''
      (field executed_cell ''execution_count'') (Some (JInt 3))"
    unfolding counts_kept_def fields by blast
  with run run' null kept show ?thesis
    by blast
qed

section \<open>Dropping tagged cells\<close>

text \<open>
  The cells that pass the filters: with \<open>drop_empty_cells\<close> those with a line that is not
  blank, and with a non-empty \<open>drop_tagged_cells\<close> those that do not carry its last tag.
  \<open>strip_output_success\<close> shows that the cells of the result are the stripped cells that
  pass, in their order, and for worksheets \<open>visit_cells_result\<close> shows it for each
  worksheet on its own.
\<close>

lemma passes_conditionals:
  "passes (conditionals args) c =
     ((drop_empty_cells args \<longrightarrow> eval_conditional NonEmptySource c = Inr True) \<and>
      (drop_tagged_cells args \<noteq> [] \<longrightarrow>
         eval_conditional (TagAbsent (last (drop_tagged_cells args))) c = Inr True))"
  by (cases "drop_tagged_cells args")
    (auto simp: passes_def conditionals_def list_all_iff)

text \<open>
  Claim C1 holds for a single tag, and the cells that survive keep their order; with two
  or more tags the code removes only the cells that carry the last tag. Each lambda appended
  for a tag refers to the loop variable \<open>tag_to_drop\<close>, and all of them run after the loop,
  when the variable holds the last tag. With \<open>drop_tagged_cells = ["a", "b"]\<close> the cell
  tagged \<open>a\<close> survives.
\<close>

theorem drop_tagged_cells_last_tag_only:
  "snd (strip_output
     (notebook [] [code_cell [(''tags'', JList [JStr ''a''])], code_cell [(''tags'', JList [JStr ''b''])],
                   code_cell []])
     (default_args\<lparr>drop_tagged_cells := [''a'', ''b'']\<rparr>)) =
   Inr (notebook [] [code_cell [(''tags'', JList [JStr ''a''])], code_cell []])"
  by code_simp

section \<open>Idempotence\<close>

text \<open>
  Claim C3, as stated, fails. Without \<open>keep_count\<close> the first pass keeps an output whose
  size is within \<open>max_size\<close> and then sets its \<open>execution_count\<close> to null, which changes
  its size: \<open>str(3)\<close> has length 1 and \<open>str(None)\<close> length 4. With \<open>max_size = 2\<close> the
  output of the end-to-end example (size 2) is kept by the first pass and, now of size 5,
  removed by the second.
\<close>

theorem strip_output_idempotent_counterexample:
  "snd (strip_output (notebook [] [executed_cell]) (default_args\<lparr>max_size := 2\<rparr>)) =
     Inr (notebook [] [JDict [(''source'', JList [JStr ''1+1'']),
            (''outputs'', JList [JDict [(''execution_count'', JNull),
                                        (''data'', JDict [(''text/plain'', JStr ''2'')])]]),
            (''execution_count'', JNull)]]) \<and>
   snd (strip_output
          (notebook [] [JDict [(''source'', JList [JStr ''1+1'']),
            (''outputs'', JList [JDict [(''execution_count'', JNull),
                                        (''data'', JDict [(''text/plain'', JStr ''2'')])]]),
            (''execution_count'', JNull)]])
          (default_args\<lparr>max_size := 2\<rparr>)) =
     Inr (notebook [] [JDict [(''source'', JList [JStr ''1+1'']), (''outputs'', JList []),
            (''execution_count'', JNull)]]) \<and>
   notebook [] [JDict [(''source'', JList [JStr ''1+1'']),
            (''outputs'', JList [JDict [(''execution_count'', JNull),
                                        (''data'', JDict [(''text/plain'', JStr ''2'')])]]),
            (''execution_count'', JNull)]] \<noteq>
   notebook [] [JDict [(''source'', JList [JStr ''1+1'']), (''outputs'', JList []),
            (''execution_count'', JNull)]]"
  by code_simp

text \<open>
  A valid extra key breaks idempotence as well, also with \<open>keep_count\<close>: the notebook's
  \<open>keep_output\<close> is read before \<open>metadata.keep_output\<close> pops it, so the first pass keeps
  the outputs and the second, finding no \<open>keep_output\<close>, strips them.
\<close>

lemma strip_output_extra_key_example:
  "snd (strip_output (notebook [(''keep_output'', JBool True)] [executed_cell])
     (default_args\<lparr>keep_count := True, extra_keys := [''metadata.keep_output'']\<rparr>)) =
     Inr (notebook [] [executed_cell]) \<and>
   snd (strip_output (notebook [] [executed_cell])
     (default_args\<lparr>keep_count := True, extra_keys := [''metadata.keep_output'']\<rparr>)) =
     Inr (notebook [] [JDict [(''source'', JList [JStr ''1+1'']), (''outputs'', JList []),
            (''execution_count'', JInt 3)]])"
  by code_simp

text \<open>
  Claim C3, amended. With \<open>keep_count\<close> and with no valid extra key (every entry of
  \<open>extra_keys\<close> is one that \<open>strip_output\<close> skips), \<open>strip_output\<close> is idempotent:
  whenever it returns a notebook, stripping that notebook again with the same arguments
  returns it unchanged.
\<close>

theorem strip_output_idempotent:
  assumes "snd (strip_output nb args) = Inr nb1"
    and "keep_count args"
    and "\<forall>key \<in> set (extra_keys args). invalid_extra_key key"
  shows "snd (strip_output nb1 args) = Inr nb1"
proof -
  from assms(1,3) obtain keep where
    keep: "effective_keep_output nb args = Inr keep" and
    loop: "for_cells nb (conditionals args) (strip_cell args keep []) = Inr nb1"
    by (auto simp: strip_output_def keys_for_invalid split: sum.splits)
  have body: "strip_cell args keep [] y = Inr y \<and> (\<forall>cond. eval_conditional cond y = eval_conditional cond x)"
    if "strip_cell args keep [] x = Inr y" for x y
    using that assms(2) by (rule strip_cell_keep_count)
  from for_cells_idem [OF body loop] have
    again: "for_cells nb1 (conditionals args) (strip_cell args keep []) = Inr nb1" and
    md: "py_getattr nb1 ''metadata'' = py_getattr nb ''metadata''"
    by simp_all
  have "effective_keep_output nb1 args = effective_keep_output nb args"
    unfolding effective_keep_output_def md by (rule refl)
  with keep have "effective_keep_output nb1 args = Inr keep"
    by simp
  with again assms(3) show ?thesis
    by (simp add: strip_output_def keys_for_invalid)
qed

theorem strip_output_idempotent_witness:
  "snd (strip_output (notebook [] [executed_cell])
     (default_args\<lparr>keep_count := True, extra_keys := [''foo'']\<rparr>)) =
     Inr (notebook [] [JDict [(''source'', JList [JStr ''1+1'']), (''outputs'', JList []),
            (''execution_count'', JInt 3)]]) \<and>
   keep_count (default_args\<lparr>keep_count := True, extra_keys := [''foo'']\<rparr>) \<and>
   extra_keys (default_args\<lparr>keep_count := True, extra_keys := [''foo'']\<rparr>) = [''foo''] \<and>
   invalid_extra_key ''foo'' \<and>
   snd (strip_output
     (notebook [] [JDict [(''source'', JList [JStr ''1+1'']), (''outputs'', JList []),
            (''execution_count'', JInt 3)]])
     (default_args\<lparr>keep_count := True, extra_keys := [''foo'']\<rparr>)) =
     Inr (notebook [] [JDict [(''source'', JList [JStr ''1+1'']), (''outputs'', JList []),
            (''execution_count'', JInt 3)]])"
proof -
  let ?args = "default_args\<lparr>keep_count := True, extra_keys := [''foo'']\<rparr>"
  have run: "snd (strip_output (notebook [] [executed_cell]) ?args) =
     Inr (notebook [] [JDict [(''source'', JList [JStr ''1+1'']), (''outputs'', JList []),
            (''execution_count'', JInt 3)]])"
    by code_simp
  have count: "keep_count ?args"
    by simp
  have keys: "\<forall>key \<in> set (extra_keys ?args). invalid_extra_key key"
    by (simp add: invalid_extra_key_def)
  have foo: "extra_keys ?args = [''foo'']" "invalid_extra_key ''foo''"
    by (simp_all add: invalid_extra_key_def)
  from strip_output_idempotent [OF run count keys] run count foo show ?thesis
    by blast
qed

end
